theory Spec2Isabelle
  imports Complex_Main "HOL-Library.Sublist" "HOL-Library.Multiset"
begin

section \<open>Host store: the asset registry (hooks/useCanvasStore.ts)\<close>

text \<open>
  JavaScript numbers that carry ids and counters are modelled as unbounded naturals
  (the engine hands out unsigned 32-bit ids; a double counts exactly up to \<open>2^53\<close>),
  numbers that carry geometry as reals.  An optional string argument is a
  \<open>string option\<close>; JavaScript truthiness of a string is non-emptiness.
\<close>

datatype js_value = Num real | Str string | Color real real real

type_synonym AssetMetadata = "string \<rightharpoonup> js_value"

record registries =
  assetRegistry :: "nat \<rightharpoonup> string"
  numericToStringIdRegistry :: "nat \<rightharpoonup> string"
  nextAssetId :: nat
  assetMetadataRegistry :: "string \<rightharpoonup> AssetMetadata"
  srcToAssetIdsRegistry :: "string \<rightharpoonup> string list"

definition initial_registries :: registries where
  "initial_registries =
     \<lparr>assetRegistry = Map.empty, numericToStringIdRegistry = Map.empty,
      nextAssetId = 1, assetMetadataRegistry = Map.empty,
      srcToAssetIdsRegistry = Map.empty\<rparr>"

definition truthy :: "string option \<Rightarrow> bool" where
  "truthy s = (case s of None \<Rightarrow> False | Some t \<Rightarrow> t \<noteq> [])"

definition registerAsset :: "string \<Rightarrow> string option \<Rightarrow> registries \<Rightarrow> nat \<times> registries" where
  "registerAsset src assetStringId r =
     (let ident = nextAssetId r;
          r1 = r\<lparr>nextAssetId := nextAssetId r + 1\<rparr>;
          r2 = r1\<lparr>assetRegistry := (assetRegistry r1)(ident \<mapsto> src)\<rparr>;
          r3 = (if truthy assetStringId
                then r2\<lparr>numericToStringIdRegistry :=
                         (numericToStringIdRegistry r2)(ident \<mapsto> the assetStringId)\<rparr>
                else r2)
      in (ident, r3))"

definition getAssetSrc :: "nat \<Rightarrow> registries \<Rightarrow> string" where
  "getAssetSrc assetId r =
     (case assetRegistry r assetId of None \<Rightarrow> [] | Some s \<Rightarrow> (if s \<noteq> [] then s else []))"

definition clearAssetRegistry :: "registries \<Rightarrow> registries" where
  "clearAssetRegistry r =
     r\<lparr>assetRegistry := Map.empty, numericToStringIdRegistry := Map.empty,
       nextAssetId := 1, assetMetadataRegistry := Map.empty,
       srcToAssetIdsRegistry := Map.empty\<rparr>"

definition getAssetStringId :: "nat \<Rightarrow> registries \<Rightarrow> string option" where
  "getAssetStringId numericId r = numericToStringIdRegistry r numericId"

definition setAssetMetadata ::
  "string \<Rightarrow> AssetMetadata \<Rightarrow> string option \<Rightarrow> registries \<Rightarrow> registries" where
  "setAssetMetadata assetId metadata src r =
     (let existing = (case assetMetadataRegistry r assetId of None \<Rightarrow> Map.empty | Some m \<Rightarrow> m);
          r1 = r\<lparr>assetMetadataRegistry :=
                  (assetMetadataRegistry r)(assetId \<mapsto> existing ++ metadata)\<rparr>
      in if truthy src
         then (let k = the src;
                   old = (case srcToAssetIdsRegistry r1 k of None \<Rightarrow> [] | Some ids \<Rightarrow> ids)
               in r1\<lparr>srcToAssetIdsRegistry :=
                       (srcToAssetIdsRegistry r1)(k \<mapsto> List.insert assetId old)\<rparr>)
         else r1)"

definition updateAssetColor :: "string \<Rightarrow> real \<Rightarrow> real \<Rightarrow> real \<Rightarrow> registries \<Rightarrow> registries" where
  "updateAssetColor src cr cg cb r =
     (let colorScore = (cr - cg) / (cr + cg + cb + 1)
      in case srcToAssetIdsRegistry r src of
           None \<Rightarrow> r
         | Some assetIds \<Rightarrow>
             fold (\<lambda>assetId acc.
                     setAssetMetadata assetId
                       [''color'' \<mapsto> Color cr cg cb, ''colorScore'' \<mapsto> Num colorScore]
                       None acc)
                  assetIds r)"

text \<open>
  The exported mutators of the module, as a history of calls.  The second component of
  the run is the list of ids that \<open>registerAsset\<close> has returned since the last
  \<open>clearAssetRegistry\<close>, oldest first.
\<close>

datatype reg_op =
    RegisterAsset string "string option"
  | ClearAssetRegistry
  | SetAssetMetadata string AssetMetadata "string option"
  | UpdateAssetColor string real real real

fun reg_step :: "reg_op \<Rightarrow> registries \<times> nat list \<Rightarrow> registries \<times> nat list" where
  "reg_step (RegisterAsset src sid) (r, ids) =
     (case registerAsset src sid r of (i, r') \<Rightarrow> (r', ids @ [i]))"
| "reg_step ClearAssetRegistry (r, ids) = (clearAssetRegistry r, [])"
| "reg_step (SetAssetMetadata a m src) (r, ids) = (setAssetMetadata a m src r, ids)"
| "reg_step (UpdateAssetColor src cr cg cb) (r, ids) = (updateAssetColor src cr cg cb r, ids)"

definition reg_run :: "reg_op list \<Rightarrow> registries \<times> nat list" where
  "reg_run ops = fold reg_step ops (initial_registries, [])"

section \<open>Asset registry: ids since the last reset\<close>

definition reg_inv :: "registries \<times> nat list \<Rightarrow> bool" where
  "reg_inv p = (case p of (r, ids) \<Rightarrow>
     ids = [1 ..< nextAssetId r] \<and> 1 \<le> nextAssetId r \<and> dom (assetRegistry r) = set ids)"

lemma setAssetMetadata_frame:
  "assetRegistry (setAssetMetadata a m src r) = assetRegistry r"
  "nextAssetId (setAssetMetadata a m src r) = nextAssetId r"
  by (simp_all add: setAssetMetadata_def Let_def)

lemma fold_setAssetMetadata_frame:
  "assetRegistry (fold (\<lambda>a acc. setAssetMetadata a m None acc) xs r) = assetRegistry r \<and>
   nextAssetId (fold (\<lambda>a acc. setAssetMetadata a m None acc) xs r) = nextAssetId r"
  by (induction xs arbitrary: r) (simp_all add: setAssetMetadata_frame)

lemma updateAssetColor_frame:
  "assetRegistry (updateAssetColor src cr cg cb r) = assetRegistry r"
  "nextAssetId (updateAssetColor src cr cg cb r) = nextAssetId r"
  by (simp_all add: updateAssetColor_def Let_def fold_setAssetMetadata_frame split: option.splits)

lemma registerAsset_frame:
  "fst (registerAsset src sid r) = nextAssetId r"
  "nextAssetId (snd (registerAsset src sid r)) = Suc (nextAssetId r)"
  "assetRegistry (snd (registerAsset src sid r)) = (assetRegistry r)(nextAssetId r \<mapsto> src)"
  by (simp_all add: registerAsset_def Let_def)

lemma reg_inv_initial: "reg_inv (initial_registries, [])"
  by (simp add: reg_inv_def initial_registries_def)

lemma reg_inv_step: "reg_inv p \<Longrightarrow> reg_inv (reg_step op p)"
proof (cases p)
  case (Pair r ids)
  assume inv: "reg_inv p"
  show ?thesis
  proof (cases op)
    case (RegisterAsset src sid)
    obtain i r' where reg: "registerAsset src sid r = (i, r')"
      by (cases "registerAsset src sid r")
    from registerAsset_frame [of src sid r] reg
    have i: "i = nextAssetId r" and n: "nextAssetId r' = Suc (nextAssetId r)"
      and a: "assetRegistry r' = (assetRegistry r)(nextAssetId r \<mapsto> src)"
      by simp_all
    from inv Pair have ids: "ids = [1 ..< nextAssetId r]" and pos: "1 \<le> nextAssetId r"
      and d: "dom (assetRegistry r) = set ids"
      by (simp_all add: reg_inv_def)
    have "ids @ [i] = [1 ..< nextAssetId r']"
      using ids pos i n by simp
    moreover have "dom (assetRegistry r') = set (ids @ [i])"
      using a d i by auto
    ultimately show ?thesis
      using Pair RegisterAsset reg n by (simp add: reg_inv_def)
  next
    case ClearAssetRegistry
    then show ?thesis using Pair by (simp add: reg_inv_def clearAssetRegistry_def)
  next
    case (SetAssetMetadata a m src)
    then show ?thesis using Pair inv by (simp add: reg_inv_def setAssetMetadata_frame)
  next
    case (UpdateAssetColor src cr cg cb)
    then show ?thesis using Pair inv by (simp add: reg_inv_def updateAssetColor_frame)
  qed
qed

lemma reg_inv_fold: "reg_inv p \<Longrightarrow> reg_inv (fold reg_step ops p)"
  by (induction ops arbitrary: p) (simp_all add: reg_inv_step)

lemma reg_inv_run: "reg_inv (reg_run ops)"
  unfolding reg_run_def by (rule reg_inv_fold [OF reg_inv_initial])

text \<open>
  C10.  After any history of calls to the module's mutators, the ids that
  \<open>registerAsset\<close> has returned since the last \<open>clearAssetRegistry\<close> are exactly
  \<open>1, 2, ..., n\<close> in this order (hence strictly increasing and pairwise distinct), the
  next call returns \<open>n + 1\<close>, a reset makes the next id \<open>1\<close> again, and
  \<open>getAssetSrc\<close> answers the empty string for every id not registered since that reset.
\<close>

theorem registerAsset_ids_consecutive:
  "snd (reg_run ops) = [1 ..< Suc (length (snd (reg_run ops)))] \<and>
   fst (registerAsset src sid (fst (reg_run ops))) = Suc (length (snd (reg_run ops))) \<and>
   fst (registerAsset src sid (clearAssetRegistry (fst (reg_run ops)))) = 1 \<and>
   distinct (snd (reg_run ops)) \<and> sorted_wrt (<) (snd (reg_run ops)) \<and>
   (\<forall>k. k \<notin> set (snd (reg_run ops)) \<longrightarrow> getAssetSrc k (fst (reg_run ops)) = [])"
proof -
  obtain r ids where p: "reg_run ops = (r, ids)" by (cases "reg_run ops")
  from reg_inv_run [of ops] p
  have ids: "ids = [1 ..< nextAssetId r]" and pos: "1 \<le> nextAssetId r"
    and d: "dom (assetRegistry r) = set ids"
    by (simp_all add: reg_inv_def)
  have len: "Suc (length ids) = nextAssetId r" using ids pos by simp
  have "ids = [1 ..< Suc (length ids)]" using ids len by simp
  moreover have "fst (registerAsset src sid r) = Suc (length ids)"
    using len by (simp add: registerAsset_frame)
  moreover have "fst (registerAsset src sid (clearAssetRegistry r)) = 1"
    by (simp add: registerAsset_frame clearAssetRegistry_def)
  moreover have "distinct ids" using ids by simp
  moreover have "sorted_wrt (<) ids" using ids by simp
  moreover have "\<forall>k. k \<notin> set ids \<longrightarrow> getAssetSrc k r = []"
  proof (intro allI impI)
    fix k assume "k \<notin> set ids"
    then have "assetRegistry r k = None" using d by auto
    then show "getAssetSrc k r = []" by (simp add: getAssetSrc_def)
  qed
  ultimately show ?thesis using p by simp
qed

theorem registerAsset_ids_consecutive_witness:
  "snd (reg_run [RegisterAsset ''a.png'' None, ClearAssetRegistry,
                 RegisterAsset ''b.png'' (Some ''x''), RegisterAsset ''c.png'' None]) = [1, 2] \<and>
   getAssetSrc 3 (fst (reg_run [RegisterAsset ''a.png'' None, ClearAssetRegistry,
                 RegisterAsset ''b.png'' (Some ''x''), RegisterAsset ''c.png'' None])) = []"
proof -
  let ?ops = "[RegisterAsset ''a.png'' None, ClearAssetRegistry,
               RegisterAsset ''b.png'' (Some ''x''), RegisterAsset ''c.png'' None]"
  have ev: "snd (reg_run ?ops) = [1, 2]"
    by (simp add: reg_run_def initial_registries_def registerAsset_def clearAssetRegistry_def
        truthy_def Let_def)
  have "(3::nat) \<notin> set (snd (reg_run ?ops))" by (simp add: ev)
  with registerAsset_ids_consecutive [of ?ops "''z''" None]
  have "getAssetSrc 3 (fst (reg_run ?ops)) = []" by blast
  with ev show ?thesis by simp
qed


section \<open>Host store: string ids (hooks/useCanvasStore.ts)\<close>

text \<open>
  \<open>show_nat\<close> is the decimal rendering a template string gives an integer-valued
  number.  \<open>getNumericId\<close> applies the unanchored regular expression \<open>/img-(\d+)/\<close>:
  the leftmost position at which \<open>img-\<close> is followed by at least one decimal digit
  matches, the group is the longest run of digits there, and \<open>parseInt\<close> reads it in
  base ten (exactly; a double rounds above \<open>2^53\<close>).
\<close>

fun show_nat :: "nat \<Rightarrow> string" where
  "show_nat n =
     (if n < 10 then [char_of (48 + n)]
      else show_nat (n div 10) @ [char_of (48 + n mod 10)])"

declare show_nat.simps [simp del]

definition is_digit :: "char \<Rightarrow> bool" where
  "is_digit c = (c \<in> set ''0123456789'')"

definition digit_val :: "char \<Rightarrow> nat" where
  "digit_val c = of_char c - 48"

definition parseInt10 :: "string \<Rightarrow> nat" where
  "parseInt10 ds = foldl (\<lambda>acc c. 10 * acc + digit_val c) 0 ds"

definition match_here :: "string \<Rightarrow> string option" where
  "match_here s =
     (if take 4 s = ''img-''
      then (let ds = takeWhile is_digit (drop 4 s) in if ds = [] then None else Some ds)
      else None)"

fun regex_match :: "string \<Rightarrow> string option" where
  "regex_match [] = match_here []"
| "regex_match (c # cs) =
     (case match_here (c # cs) of Some ds \<Rightarrow> Some ds | None \<Rightarrow> regex_match cs)"

definition getNumericId :: "string \<Rightarrow> nat" where
  "getNumericId ident = (case regex_match ident of Some ds \<Rightarrow> parseInt10 ds | None \<Rightarrow> 0)"

definition img_form :: "string \<Rightarrow> bool" where
  "img_form s = (take 4 s = ''img-'' \<and> drop 4 s \<noteq> [] \<and> list_all is_digit (drop 4 s))"

section \<open>The engine's interface as the host declares it (utils/wasmLoader.ts)\<close>

text \<open>
  The function members of \<open>interface WASMExports\<close>, each with its declared parameter
  names, in the order of the declaration.  (The interface's one non-function member,
  \<open>memory\<close>, is left out.)
\<close>

definition WASMExports_interface :: "(string \<times> string list) list" where
  "WASMExports_interface =
    [(''createCanvas'', [''width'', ''height'', ''gridSize'']),
     (''clearCanvas'', []),
     (''addObject'', [''x'', ''y'', ''width'', ''height'', ''assetId'', ''objectType'']),
     (''moveObject'', [''objectId'', ''x'', ''y'']),
     (''resizeObject'', [''objectId'', ''x'', ''y'', ''width'', ''height'']),
     (''deleteObject'', [''objectId'']),
     (''deleteObjects'', [''objectIds'']),
     (''beginBatchMove'', []),
     (''addToBatchMove'', [''objectId'', ''newX'', ''newY'']),
     (''endBatchMove'', []),
     (''beginBatchResize'', []),
     (''addToBatchResize'', [''objectId'', ''newX'', ''newY'', ''newWidth'', ''newHeight'']),
     (''endBatchResize'', []),
     (''getObjectCount'', []),
     (''getObjectIdAtIndex'', [''index'']),
     (''getObjectX'', [''objectId'']),
     (''getObjectY'', [''objectId'']),
     (''getObjectWidth'', [''objectId'']),
     (''getObjectHeight'', [''objectId'']),
     (''getObjectAssetId'', [''objectId'']),
     (''getObjectType'', [''objectId'']),
     (''objectExists'', [''objectId'']),
     (''pan'', [''dx'', ''dy'']),
     (''zoom'', [''centerX'', ''centerY'', ''delta'']),
     (''updateViewport'', []),
     (''getVisibleCount'', []),
     (''getVisibleObjectId'', [''index'']),
     (''getVisibleObjectAssetId'', [''index'']),
     (''getVisibleObjectType'', [''index'']),
     (''getTransformX'', [''index'']),
     (''getTransformY'', [''index'']),
     (''getTransformWidth'', [''index'']),
     (''getTransformHeight'', [''index'']),
     (''getTransformRotation'', [''index'']),
     (''undo'', []),
     (''redo'', []),
     (''canUndo'', []),
     (''canRedo'', []),
     (''setGridSnap'', [''enabled'']),
     (''setGridSize'', [''size'']),
     (''getGridSize'', []),
     (''getStateVersion'', []),
     (''getCameraX'', []),
     (''getCameraY'', []),
     (''getCameraZoom'', []),
     (''getCanvasWidth'', []),
     (''getCanvasHeight'', []),
     (''updateCanvasSize'', [''width'', ''height''])]"

definition declared_params :: "string \<Rightarrow> string list option" where
  "declared_params name = map_of WASMExports_interface name"

text \<open>
  The operation surface as section 6 of the specification words it.  A brace shorthand
  \<open>pre{A,B}(args)\<close> stands for \<open>preA(args)\<close>, \<open>preB(args)\<close>; an operation the section
  names without a parameter list (the six batch operations) carries no parameter count.
\<close>

definition brace :: "string \<Rightarrow> string list \<Rightarrow> nat \<Rightarrow> (string \<times> nat option) list" where
  "brace pre alts n = map (\<lambda>a. (pre @ a, Some n)) alts"

definition spec_surface :: "(string \<times> nat option) list" where
  "spec_surface =
     [(''createCanvas'', Some 3), (''clearCanvas'', Some 0), (''addObject'', Some 6),
      (''moveObject'', Some 3), (''resizeObject'', Some 5), (''deleteObject'', Some 1),
      (''deleteObjects'', Some 1),
      (''beginBatchMove'', None), (''addToBatchMove'', None), (''endBatchMove'', None),
      (''beginBatchResize'', None), (''addToBatchResize'', None), (''endBatchResize'', None),
      (''getObjectCount'', Some 0), (''getObjectIdAtIndex'', Some 1)]
     @ brace ''getObject'' [''X'', ''Y'', ''Width'', ''Height'', ''AssetId'', ''Type''] 1
     @ [(''objectExists'', Some 1), (''pan'', Some 2), (''zoom'', Some 3),
        (''updateViewport'', Some 0)]
     @ brace ''getVisible'' [''ObjectId'', ''AssetId'', ''Type''] 1
     @ brace ''getTransform'' [''X'', ''Y'', ''Width'', ''Height'', ''Rotation''] 1
     @ [(''undo'', Some 0), (''redo'', Some 0), (''canUndo'', Some 0), (''canRedo'', Some 0),
        (''setGridSnap'', Some 1), (''setGridSize'', Some 1), (''getGridSize'', Some 0),
        (''getStateVersion'', Some 0)]
     @ brace ''getCamera'' [''X'', ''Y'', ''Zoom''] 0
     @ brace ''getCanvas'' [''Width'', ''Height''] 0
     @ [(''updateCanvasSize'', Some 2)]"

definition declared_as :: "string \<times> nat option \<Rightarrow> bool" where
  "declared_as entry =
     (case declared_params (fst entry) of
        None \<Rightarrow> False
      | Some ps \<Rightarrow> (case snd entry of None \<Rightarrow> True | Some n \<Rightarrow> length ps = n))"


section \<open>Host store: the engine handle and the React store (hooks/useCanvasStore.ts)\<close>

text \<open>
  The host reaches the engine only through the members of \<open>WASMExports\<close>.  The members
  that \<open>useCanvasStore.ts\<close> calls are the fields of the record below, each typed by its
  declaration, over an engine state \<open>'e\<close>: a query reads the state, a command returns
  the new one.  A handle that is \<open>null\<close> is \<open>None\<close>.
\<close>

record 'e WASMExports =
  addObject :: "real \<Rightarrow> real \<Rightarrow> real \<Rightarrow> real \<Rightarrow> nat \<Rightarrow> nat \<Rightarrow> 'e \<Rightarrow> nat \<times> 'e"
  moveObject :: "nat \<Rightarrow> real \<Rightarrow> real \<Rightarrow> 'e \<Rightarrow> 'e"
  resizeObject :: "nat \<Rightarrow> real \<Rightarrow> real \<Rightarrow> real \<Rightarrow> real \<Rightarrow> 'e \<Rightarrow> 'e"
  deleteObject :: "nat \<Rightarrow> 'e \<Rightarrow> 'e"
  beginBatchMove :: "'e \<Rightarrow> 'e"
  addToBatchMove :: "nat \<Rightarrow> real \<Rightarrow> real \<Rightarrow> 'e \<Rightarrow> 'e"
  endBatchMove :: "'e \<Rightarrow> 'e"
  beginBatchResize :: "'e \<Rightarrow> 'e"
  addToBatchResize :: "nat \<Rightarrow> real \<Rightarrow> real \<Rightarrow> real \<Rightarrow> real \<Rightarrow> 'e \<Rightarrow> 'e"
  endBatchResize :: "'e \<Rightarrow> 'e"
  getObjectCount :: "'e \<Rightarrow> nat"
  getObjectIdAtIndex :: "'e \<Rightarrow> nat \<Rightarrow> nat"
  getObjectX :: "'e \<Rightarrow> nat \<Rightarrow> real"
  getObjectY :: "'e \<Rightarrow> nat \<Rightarrow> real"
  getObjectWidth :: "'e \<Rightarrow> nat \<Rightarrow> real"
  getObjectHeight :: "'e \<Rightarrow> nat \<Rightarrow> real"
  getObjectAssetId :: "'e \<Rightarrow> nat \<Rightarrow> nat"
  undo :: "'e \<Rightarrow> bool \<times> 'e"
  redo :: "'e \<Rightarrow> bool \<times> 'e"
  canUndo :: "'e \<Rightarrow> bool"
  canRedo :: "'e \<Rightarrow> bool"
  getStateVersion :: "'e \<Rightarrow> nat"

record CanvasImage =
  img_id :: string
  img_x :: real
  img_y :: real
  img_width :: real
  img_height :: real
  img_src :: string

record CanvasState =
  images :: "CanvasImage list"
  stateVersion :: nat

text \<open>
  The module's state: the engine behind the handle, the registries, \<open>currentState\<close>,
  the number of times \<open>emitChange\<close> has run (each run calls every listener once), and
  the log of the engine commands issued, each with the arguments actually passed.
\<close>

record 'e host =
  engine :: 'e
  registry :: registries
  currentState :: CanvasState
  emitted :: nat
  calls :: "(string \<times> real list) list"

definition emitChange :: "'e host \<Rightarrow> 'e host" where
  "emitChange h = h\<lparr>emitted := emitted h + 1\<rparr>"

function sync_loop ::
  "'e WASMExports \<Rightarrow> 'e \<Rightarrow> registries \<Rightarrow> nat \<Rightarrow> nat \<Rightarrow> CanvasImage list \<Rightarrow> CanvasImage list" where
  "sync_loop w e r i cnt imgs =
     (if i < cnt
      then (let objectId = getObjectIdAtIndex w e i
            in if objectId = 0 then sync_loop w e r (i + 1) cnt imgs
               else (let assetId = getObjectAssetId w e objectId;
                         src = getAssetSrc assetId r
                     in if src \<noteq> []
                        then sync_loop w e r (i + 1) cnt
                               (imgs @ [\<lparr>img_id = ''img-'' @ show_nat objectId,
                                          img_x = getObjectX w e objectId,
                                          img_y = getObjectY w e objectId,
                                          img_width = getObjectWidth w e objectId,
                                          img_height = getObjectHeight w e objectId,
                                          img_src = src\<rparr>])
                        else sync_loop w e r (i + 1) cnt imgs))
      else imgs)"
  by pat_completeness auto
termination
  by (relation "measure (\<lambda>(w, e, r, i, cnt, imgs). cnt - i)") auto

declare sync_loop.simps [simp del]

definition syncFromWasm :: "'e WASMExports \<Rightarrow> 'e host \<Rightarrow> 'e host" where
  "syncFromWasm w h =
     (let wasmVersion = getStateVersion w (engine h)
      in if wasmVersion = stateVersion (currentState h) then h
         else (let cnt = getObjectCount w (engine h);
                   imgs = sync_loop w (engine h) (registry h) 0 cnt []
               in emitChange (h\<lparr>currentState := \<lparr>images = imgs, stateVersion = wasmVersion\<rparr>\<rparr>)))"

text \<open>
  A call of an export from JavaScript binds the arguments to the declared parameters by
  position; arguments beyond the declared ones are dropped.  (No call in the module
  passes fewer arguments than are declared.)  \<open>invoke\<close> runs an engine command and logs
  it with the arguments as passed.
\<close>

definition bind_args :: "string \<Rightarrow> real list \<Rightarrow> real list" where
  "bind_args name args =
     (case declared_params name of None \<Rightarrow> [] | Some ps \<Rightarrow> map snd (zip ps args))"

definition invoke :: "string \<Rightarrow> real list \<Rightarrow> ('e \<Rightarrow> 'e) \<Rightarrow> 'e host \<Rightarrow> 'e host" where
  "invoke name args f h = h\<lparr>engine := f (engine h), calls := calls h @ [(name, args)]\<rparr>"

definition call_addToBatchMove :: "'e WASMExports \<Rightarrow> real list \<Rightarrow> 'e \<Rightarrow> 'e" where
  "call_addToBatchMove w args =
     (case bind_args ''addToBatchMove'' args of
        [objectId, newX, newY] \<Rightarrow> addToBatchMove w (nat \<lfloor>objectId\<rfloor>) newX newY
      | _ \<Rightarrow> (\<lambda>e. e))"

definition call_addToBatchResize :: "'e WASMExports \<Rightarrow> real list \<Rightarrow> 'e \<Rightarrow> 'e" where
  "call_addToBatchResize w args =
     (case bind_args ''addToBatchResize'' args of
        [objectId, newX, newY, newWidth, newHeight] \<Rightarrow>
          addToBatchResize w (nat \<lfloor>objectId\<rfloor>) newX newY newWidth newHeight
      | _ \<Rightarrow> (\<lambda>e. e))"

text \<open>The actions of \<open>useCanvasActions(wasm)\<close>.\<close>

definition useCanvasActions_moveObject ::
  "'e WASMExports option \<Rightarrow> nat \<Rightarrow> real \<Rightarrow> real \<Rightarrow> 'e host \<Rightarrow> 'e host" where
  "useCanvasActions_moveObject wasm objectId x y h =
     (case wasm of None \<Rightarrow> h
      | Some w \<Rightarrow>
          syncFromWasm w (invoke ''moveObject'' [real objectId, x, y] (moveObject w objectId x y) h))"

definition useCanvasActions_resizeObject ::
  "'e WASMExports option \<Rightarrow> nat \<Rightarrow> real \<Rightarrow> real \<Rightarrow> real \<Rightarrow> real \<Rightarrow> 'e host \<Rightarrow> 'e host" where
  "useCanvasActions_resizeObject wasm objectId x y width height h =
     (case wasm of None \<Rightarrow> h
      | Some w \<Rightarrow>
          syncFromWasm w (invoke ''resizeObject'' [real objectId, x, y, width, height]
                            (resizeObject w objectId x y width height) h))"

definition batch_move_entry :: "'e WASMExports \<Rightarrow> nat \<times> real \<times> real \<Rightarrow> 'e host \<Rightarrow> 'e host" where
  "batch_move_entry w m h =
     (case m of (objectId, x, y) \<Rightarrow>
        (let oldX = getObjectX w (engine h) objectId;
             oldY = getObjectY w (engine h) objectId
         in invoke ''addToBatchMove'' [real objectId, oldX, oldY, x, y]
              (call_addToBatchMove w [real objectId, oldX, oldY, x, y]) h))"

definition batchMoveObjects ::
  "'e WASMExports option \<Rightarrow> (nat \<times> real \<times> real) list \<Rightarrow> 'e host \<Rightarrow> 'e host" where
  "batchMoveObjects wasm moves h =
     (case wasm of None \<Rightarrow> h
      | Some w \<Rightarrow>
          if moves = [] then h
          else (let h1 = invoke ''beginBatchMove'' [] (beginBatchMove w) h;
                    h2 = fold (batch_move_entry w) moves h1;
                    h3 = invoke ''endBatchMove'' [] (endBatchMove w) h2
                in syncFromWasm w h3))"

definition batch_resize_entry ::
  "'e WASMExports \<Rightarrow> nat \<times> real \<times> real \<times> real \<times> real \<Rightarrow> 'e host \<Rightarrow> 'e host" where
  "batch_resize_entry w m h =
     (case m of (objectId, x, y, width, height) \<Rightarrow>
        (let oldX = getObjectX w (engine h) objectId;
             oldY = getObjectY w (engine h) objectId;
             oldWidth = getObjectWidth w (engine h) objectId;
             oldHeight = getObjectHeight w (engine h) objectId
         in invoke ''addToBatchResize''
              [real objectId, oldX, oldY, oldWidth, oldHeight, x, y, width, height]
              (call_addToBatchResize w
                 [real objectId, oldX, oldY, oldWidth, oldHeight, x, y, width, height]) h))"

definition batchResizeObjects ::
  "'e WASMExports option \<Rightarrow> (nat \<times> real \<times> real \<times> real \<times> real) list \<Rightarrow> 'e host \<Rightarrow> 'e host" where
  "batchResizeObjects wasm resizes h =
     (case wasm of None \<Rightarrow> h
      | Some w \<Rightarrow>
          if resizes = [] then h
          else (let h1 = invoke ''beginBatchResize'' [] (beginBatchResize w) h;
                    h2 = fold (batch_resize_entry w) resizes h1;
                    h3 = invoke ''endBatchResize'' [] (endBatchResize w) h2
                in syncFromWasm w h3))"

definition useCanvasActions_deleteObject :: "'e WASMExports option \<Rightarrow> nat \<Rightarrow> 'e host \<Rightarrow> 'e host" where
  "useCanvasActions_deleteObject wasm objectId h =
     (case wasm of None \<Rightarrow> h
      | Some w \<Rightarrow> syncFromWasm w (invoke ''deleteObject'' [real objectId] (deleteObject w objectId) h))"

definition useCanvasActions_deleteObjects ::
  "'e WASMExports option \<Rightarrow> nat list \<Rightarrow> 'e host \<Rightarrow> 'e host" where
  "useCanvasActions_deleteObjects wasm objectIds h =
     (case wasm of None \<Rightarrow> h
      | Some w \<Rightarrow>
          if objectIds = [] then h
          else syncFromWasm w
                 (fold (\<lambda>i. invoke ''deleteObject'' [real i] (deleteObject w i)) objectIds h))"

definition useCanvasActions_undo :: "'e WASMExports option \<Rightarrow> 'e host \<Rightarrow> bool \<times> 'e host" where
  "useCanvasActions_undo wasm h =
     (case wasm of None \<Rightarrow> (False, h)
      | Some w \<Rightarrow>
          if \<not> canUndo w (engine h) then (False, h)
          else (True, syncFromWasm w (invoke ''undo'' [] (\<lambda>e. snd (undo w e)) h)))"

definition useCanvasActions_redo :: "'e WASMExports option \<Rightarrow> 'e host \<Rightarrow> bool \<times> 'e host" where
  "useCanvasActions_redo wasm h =
     (case wasm of None \<Rightarrow> (False, h)
      | Some w \<Rightarrow>
          if \<not> canRedo w (engine h) then (False, h)
          else (True, syncFromWasm w (invoke ''redo'' [] (\<lambda>e. snd (redo w e)) h)))"

definition useCanvasActions_canUndo :: "'e WASMExports option \<Rightarrow> 'e host \<Rightarrow> bool" where
  "useCanvasActions_canUndo wasm h = (case wasm of None \<Rightarrow> False | Some w \<Rightarrow> canUndo w (engine h))"

definition useCanvasActions_canRedo :: "'e WASMExports option \<Rightarrow> 'e host \<Rightarrow> bool" where
  "useCanvasActions_canRedo wasm h = (case wasm of None \<Rightarrow> False | Some w \<Rightarrow> canRedo w (engine h))"

definition initialize_image ::
  "'e WASMExports \<Rightarrow> string \<times> real \<times> real \<times> real \<times> real \<Rightarrow> 'e host \<Rightarrow> 'e host" where
  "initialize_image w img h =
     (case img of (src, x, y, width, height) \<Rightarrow>
        (case registerAsset src None (registry h) of
           (assetId, r') \<Rightarrow>
             invoke ''addObject'' [x, y, width, height, real assetId, 1]
               (\<lambda>e. snd (addObject w x y width height assetId 1 e))
               (h\<lparr>registry := r'\<rparr>)))"

definition initializeCanvasWithImages ::
  "'e WASMExports \<Rightarrow> (string \<times> real \<times> real \<times> real \<times> real) list \<Rightarrow> 'e host \<Rightarrow> 'e host" where
  "initializeCanvasWithImages w imgs h = syncFromWasm w (fold (initialize_image w) imgs h)"

definition initial_host :: "'e \<Rightarrow> 'e host" where
  "initial_host e =
     \<lparr>engine = e, registry = initial_registries,
      currentState = \<lparr>images = [], stateVersion = 0\<rparr>, emitted = 0, calls = []\<rparr>"

section \<open>The canvas engine, modelled from the specification\<close>

text \<open>
  Modelled from the spec: the engine behind \<open>WASMExports\<close> (the AssemblyScript module
  \<open>packages/wasm/assembly\<close>: \<open>canvas-manager.ts\<close>, \<open>commands.ts\<close>, \<open>grid.ts\<close>,
  \<open>viewport.ts\<close>) is not part of the sources at hand; only its declaration and its
  callers are.  The definitions of this section follow sections 3, 4.1, 4.3, 4.4, 4.5 and
  7 of the specification.  The spatial index has a section of its own below; the object
  table is the authority for geometry.
\<close>

record CanvasObject =
  obj_x :: real
  obj_y :: real
  obj_w :: real
  obj_h :: real
  obj_assetId :: nat
  obj_type :: nat

type_synonym position = "real \<times> real"
type_synonym geometry = "real \<times> real \<times> real \<times> real"

text \<open>Modelled from the spec: the command kinds of section 3, each with prior and new values.\<close>

datatype Command =
    Create nat CanvasObject
  | Delete nat CanvasObject
  | Move nat position position
  | Resize nat geometry geometry
  | BatchMove "(nat \<times> position \<times> position) list"
  | BatchResize "(nat \<times> geometry \<times> geometry) list"

datatype batch_state =
    NoBatch
  | MoveBatch "(nat \<times> position \<times> position) list"
  | ResizeBatch "(nat \<times> geometry \<times> geometry) list"

datatype engine_error = ObjectNotFound | InvalidGeometry | InvalidBatchState

record engine =
  objects :: "nat \<rightharpoonup> CanvasObject"
  objectIds :: "nat list"
  nextObjectId :: nat
  undoStack :: "Command list"
  redoStack :: "Command list"
  version :: nat
  batch :: batch_state
  eng_gridSnap :: bool
  eng_gridSize :: real
  cameraX :: real
  cameraY :: real
  cameraZoom :: real
  canvasWidth :: real
  canvasHeight :: real

text \<open>
  Modelled from the spec: the constants the specification leaves to configuration: the
  zoom bounds, the way a zoom delta combines with the current zoom, and the camera a
  fresh canvas starts from.
\<close>

record engine_config =
  minZoom :: real
  maxZoom :: real
  applyDelta :: "real \<Rightarrow> real \<Rightarrow> real"
  homeX :: real
  homeY :: real
  homeZoom :: real

type_synonym table = "nat \<rightharpoonup> CanvasObject"

definition position_of :: "CanvasObject \<Rightarrow> position" where
  "position_of ob = (obj_x ob, obj_y ob)"

definition geometry_of :: "CanvasObject \<Rightarrow> geometry" where
  "geometry_of ob = (obj_x ob, obj_y ob, obj_w ob, obj_h ob)"

definition set_position :: "nat \<Rightarrow> position \<Rightarrow> table \<Rightarrow> table" where
  "set_position ident p t =
     (case t ident of None \<Rightarrow> t
      | Some ob \<Rightarrow> t(ident \<mapsto> ob\<lparr>obj_x := fst p, obj_y := snd p\<rparr>))"

definition set_geometry :: "nat \<Rightarrow> geometry \<Rightarrow> table \<Rightarrow> table" where
  "set_geometry ident g t =
     (case t ident of None \<Rightarrow> t
      | Some ob \<Rightarrow>
          (case g of (x, y, w, h) \<Rightarrow> t(ident \<mapsto> ob\<lparr>obj_x := x, obj_y := y, obj_w := w, obj_h := h\<rparr>)))"

text \<open>
  Modelled from the spec (4.4, inversion rules): a command re-applied forward, and its
  inverse.  A batch is replayed entry by entry, forward in the order the entries were
  added, backward in the opposite order.
\<close>

fun apply_forward :: "Command \<Rightarrow> table \<Rightarrow> table" where
  "apply_forward (Create ident ob) t = t(ident \<mapsto> ob)"
| "apply_forward (Delete ident ob) t = t(ident := None)"
| "apply_forward (Move ident p n) t = set_position ident n t"
| "apply_forward (Resize ident p n) t = set_geometry ident n t"
| "apply_forward (BatchMove es) t = fold (\<lambda>(ident, p, n). set_position ident n) es t"
| "apply_forward (BatchResize es) t = fold (\<lambda>(ident, p, n). set_geometry ident n) es t"

fun apply_inverse :: "Command \<Rightarrow> table \<Rightarrow> table" where
  "apply_inverse (Create ident ob) t = t(ident := None)"
| "apply_inverse (Delete ident ob) t = t(ident \<mapsto> ob)"
| "apply_inverse (Move ident p n) t = set_position ident p t"
| "apply_inverse (Resize ident p n) t = set_geometry ident p t"
| "apply_inverse (BatchMove es) t = fold (\<lambda>(ident, p, n). set_position ident p) (rev es) t"
| "apply_inverse (BatchResize es) t = fold (\<lambda>(ident, p, n). set_geometry ident p) (rev es) t"

text \<open>
  Modelled from the spec: the order in which \<open>getObjectIdAtIndex\<close> enumerates the live
  ids is not specified.  The ids are kept in the order of insertion; an id that undo or
  redo brings back is appended, one that it takes away is dropped.
\<close>

definition sync_ids :: "table \<Rightarrow> nat list \<Rightarrow> nat list \<Rightarrow> nat list" where
  "sync_ids t touched ids =
     filter (\<lambda>i. t i \<noteq> None) ids @ filter (\<lambda>i. t i \<noteq> None \<and> i \<notin> set ids) (remdups touched)"

definition command_ids :: "Command \<Rightarrow> nat list" where
  "command_ids c =
     (case c of Create i ob \<Rightarrow> [i] | Delete i ob \<Rightarrow> [i] | Move i p n \<Rightarrow> [i] | Resize i p n \<Rightarrow> [i]
      | BatchMove es \<Rightarrow> map fst es | BatchResize es \<Rightarrow> map fst es)"

text \<open>
  Modelled from the spec (4.5): \<open>snap\<close> rounds each coordinate to the nearest multiple
  of the grid size when snapping is enabled and is the identity otherwise.
\<close>

definition snap_coord :: "real \<Rightarrow> real \<Rightarrow> real" where
  "snap_coord g v = of_int (round (v / g)) * g"

definition snap :: "engine \<Rightarrow> position \<Rightarrow> position" where
  "snap e p = (if eng_gridSnap e then (snap_coord (eng_gridSize e) (fst p), snap_coord (eng_gridSize e) (snd p)) else p)"

text \<open>
  Modelled from the spec (3, 4.4): recording a command pushes it onto the undo stack,
  clears the redo stack and increments the state version by one.
\<close>

definition commit :: "Command \<Rightarrow> engine \<Rightarrow> engine" where
  "commit c e = e\<lparr>undoStack := c # undoStack e, redoStack := [], version := version e + 1\<rparr>"

text \<open>
  Modelled from the spec (4.5, canvas-level lifecycle): \<open>createCanvas\<close> starts from an
  empty table and history; \<open>clearCanvas\<close> empties table and history and keeps camera
  and grid configuration.
\<close>

definition eng_createCanvas :: "engine_config \<Rightarrow> real \<Rightarrow> real \<Rightarrow> real \<Rightarrow> engine" where
  "eng_createCanvas cfg w h g =
     \<lparr>objects = Map.empty, objectIds = [], nextObjectId = 1, undoStack = [], redoStack = [],
      version = 0, batch = NoBatch, eng_gridSnap = False, eng_gridSize = g,
      cameraX = homeX cfg, cameraY = homeY cfg, cameraZoom = homeZoom cfg,
      canvasWidth = w, canvasHeight = h\<rparr>"

definition eng_clearCanvas :: "engine \<Rightarrow> engine" where
  "eng_clearCanvas e =
     e\<lparr>objects := Map.empty, objectIds := [], undoStack := [], redoStack := [],
       batch := NoBatch, version := version e + 1\<rparr>"

text \<open>
  Modelled from the spec (4.1, 7): the object table.  \<open>addObject\<close> rejects a non-positive
  width or height and otherwise assigns the next unused id; \<open>moveObject\<close>,
  \<open>resizeObject\<close> and \<open>deleteObject\<close> reject an unknown id and otherwise record the prior
  values; the new position of a move or resize is snapped; \<open>deleteObjects\<close> deletes id by
  id and skips the unknown ones.  A rejected call is the error value.
\<close>

definition eng_addObject ::
  "real \<Rightarrow> real \<Rightarrow> real \<Rightarrow> real \<Rightarrow> nat \<Rightarrow> nat \<Rightarrow> engine \<Rightarrow> engine_error + nat \<times> engine" where
  "eng_addObject x y w h aid ty e =
     (if w \<le> 0 \<or> h \<le> 0 then Inl InvalidGeometry
      else (let ident = nextObjectId e;
                ob = \<lparr>obj_x = x, obj_y = y, obj_w = w, obj_h = h, obj_assetId = aid, obj_type = ty\<rparr>
            in Inr (ident,
                    commit (Create ident ob)
                      (e\<lparr>objects := (objects e)(ident \<mapsto> ob),
                         objectIds := objectIds e @ [ident],
                         nextObjectId := ident + 1\<rparr>))))"

definition eng_moveObject :: "nat \<Rightarrow> real \<Rightarrow> real \<Rightarrow> engine \<Rightarrow> engine_error + engine" where
  "eng_moveObject ident x y e =
     (case objects e ident of
        None \<Rightarrow> Inl ObjectNotFound
      | Some ob \<Rightarrow>
          (let n = snap e (x, y)
           in Inr (commit (Move ident (position_of ob) n)
                     (e\<lparr>objects := set_position ident n (objects e)\<rparr>))))"

definition eng_resizeObject ::
  "nat \<Rightarrow> real \<Rightarrow> real \<Rightarrow> real \<Rightarrow> real \<Rightarrow> engine \<Rightarrow> engine_error + engine" where
  "eng_resizeObject ident x y w h e =
     (case objects e ident of
        None \<Rightarrow> Inl ObjectNotFound
      | Some ob \<Rightarrow>
          if w \<le> 0 \<or> h \<le> 0 then Inl InvalidGeometry
          else (let n = snap e (x, y); g = (fst n, snd n, w, h)
                in Inr (commit (Resize ident (geometry_of ob) g)
                          (e\<lparr>objects := set_geometry ident g (objects e)\<rparr>))))"

definition eng_deleteObject :: "nat \<Rightarrow> engine \<Rightarrow> engine_error + engine" where
  "eng_deleteObject ident e =
     (case objects e ident of
        None \<Rightarrow> Inl ObjectNotFound
      | Some ob \<Rightarrow>
          Inr (commit (Delete ident ob)
                 (e\<lparr>objects := (objects e)(ident := None),
                    objectIds := removeAll ident (objectIds e)\<rparr>)))"

definition or_unchanged :: "engine \<Rightarrow> engine_error + engine \<Rightarrow> engine" where
  "or_unchanged e r = (case r of Inl err \<Rightarrow> e | Inr e' \<Rightarrow> e')"

definition eng_deleteObjects :: "nat list \<Rightarrow> engine \<Rightarrow> engine" where
  "eng_deleteObjects idents e = fold (\<lambda>i acc. or_unchanged acc (eng_deleteObject i acc)) idents e"

text \<open>
  Modelled from the spec (4.1, batch variants; 5): \<open>begin\<close> opens a batch and fails when
  one is open; \<open>addToBatch\<close> fails without an open batch of its kind, and otherwise
  changes the table at once and notes the entry; \<open>end\<close> records one command for the
  entries noted, or none when there are none.
\<close>

definition eng_beginBatchMove :: "engine \<Rightarrow> engine_error + engine" where
  "eng_beginBatchMove e =
     (case batch e of NoBatch \<Rightarrow> Inr (e\<lparr>batch := MoveBatch []\<rparr>) | _ \<Rightarrow> Inl InvalidBatchState)"

definition eng_addToBatchMove :: "nat \<Rightarrow> real \<Rightarrow> real \<Rightarrow> engine \<Rightarrow> engine_error + engine" where
  "eng_addToBatchMove ident x y e =
     (case batch e of
        MoveBatch es \<Rightarrow>
          (case objects e ident of
             None \<Rightarrow> Inl ObjectNotFound
           | Some ob \<Rightarrow>
               Inr (e\<lparr>objects := set_position ident (x, y) (objects e),
                      batch := MoveBatch (es @ [(ident, position_of ob, (x, y))])\<rparr>))
      | _ \<Rightarrow> Inl InvalidBatchState)"

definition eng_endBatchMove :: "engine \<Rightarrow> engine_error + engine" where
  "eng_endBatchMove e =
     (case batch e of
        MoveBatch es \<Rightarrow>
          (if es = [] then Inr (e\<lparr>batch := NoBatch\<rparr>)
           else Inr (commit (BatchMove es) (e\<lparr>batch := NoBatch\<rparr>)))
      | _ \<Rightarrow> Inl InvalidBatchState)"

definition eng_beginBatchResize :: "engine \<Rightarrow> engine_error + engine" where
  "eng_beginBatchResize e =
     (case batch e of NoBatch \<Rightarrow> Inr (e\<lparr>batch := ResizeBatch []\<rparr>) | _ \<Rightarrow> Inl InvalidBatchState)"

definition eng_addToBatchResize ::
  "nat \<Rightarrow> real \<Rightarrow> real \<Rightarrow> real \<Rightarrow> real \<Rightarrow> engine \<Rightarrow> engine_error + engine" where
  "eng_addToBatchResize ident x y w h e =
     (case batch e of
        ResizeBatch es \<Rightarrow>
          (case objects e ident of
             None \<Rightarrow> Inl ObjectNotFound
           | Some ob \<Rightarrow>
               if w \<le> 0 \<or> h \<le> 0 then Inl InvalidGeometry
               else Inr (e\<lparr>objects := set_geometry ident (x, y, w, h) (objects e),
                           batch := ResizeBatch (es @ [(ident, geometry_of ob, (x, y, w, h))])\<rparr>))
      | _ \<Rightarrow> Inl InvalidBatchState)"

definition eng_endBatchResize :: "engine \<Rightarrow> engine_error + engine" where
  "eng_endBatchResize e =
     (case batch e of
        ResizeBatch es \<Rightarrow>
          (if es = [] then Inr (e\<lparr>batch := NoBatch\<rparr>)
           else Inr (commit (BatchResize es) (e\<lparr>batch := NoBatch\<rparr>)))
      | _ \<Rightarrow> Inl InvalidBatchState)"

text \<open>
  Modelled from the spec (4.4): \<open>undo\<close> returns \<open>false\<close> on an empty undo stack; otherwise
  it pops the most recent command, applies its inverse to the table without recording
  anything, pushes the command onto the redo stack and increments the version.
  \<open>redo\<close> is symmetric.
\<close>

definition eng_canUndo :: "engine \<Rightarrow> bool" where
  "eng_canUndo e = (undoStack e \<noteq> [])"

definition eng_canRedo :: "engine \<Rightarrow> bool" where
  "eng_canRedo e = (redoStack e \<noteq> [])"

definition eng_undo :: "engine \<Rightarrow> bool \<times> engine" where
  "eng_undo e =
     (case undoStack e of
        [] \<Rightarrow> (False, e)
      | c # cs \<Rightarrow>
          (let t = apply_inverse c (objects e)
           in (True, e\<lparr>objects := t, objectIds := sync_ids t (command_ids c) (objectIds e),
                        undoStack := cs, redoStack := c # redoStack e,
                        version := version e + 1\<rparr>)))"

definition eng_redo :: "engine \<Rightarrow> bool \<times> engine" where
  "eng_redo e =
     (case redoStack e of
        [] \<Rightarrow> (False, e)
      | c # cs \<Rightarrow>
          (let t = apply_forward c (objects e)
           in (True, e\<lparr>objects := t, objectIds := sync_ids t (command_ids c) (objectIds e),
                        redoStack := cs, undoStack := c # undoStack e,
                        version := version e + 1\<rparr>)))"

text \<open>Modelled from the spec (4.5, 6): grid configuration and canvas size.\<close>

definition eng_setGridSnap :: "bool \<Rightarrow> engine \<Rightarrow> engine" where
  "eng_setGridSnap enabled e = e\<lparr>eng_gridSnap := enabled\<rparr>"

definition eng_setGridSize :: "real \<Rightarrow> engine \<Rightarrow> engine" where
  "eng_setGridSize n e = (if 0 < n then e\<lparr>eng_gridSize := n\<rparr> else e)"

definition eng_updateCanvasSize :: "real \<Rightarrow> real \<Rightarrow> engine \<Rightarrow> engine" where
  "eng_updateCanvasSize w h e = e\<lparr>canvasWidth := w, canvasHeight := h\<rparr>"

text \<open>
  Modelled from the spec (4.3): the camera.  The world point under a screen point is the
  camera offset plus the screen point divided by the zoom.
\<close>

definition world_under :: "engine \<Rightarrow> real \<times> real \<Rightarrow> real \<times> real" where
  "world_under e s = (cameraX e + fst s / cameraZoom e, cameraY e + snd s / cameraZoom e)"

definition clamp_zoom :: "engine_config \<Rightarrow> real \<Rightarrow> real" where
  "clamp_zoom cfg z = max (minZoom cfg) (min (maxZoom cfg) z)"

definition eng_pan :: "real \<Rightarrow> real \<Rightarrow> engine \<Rightarrow> engine" where
  "eng_pan dx dy e =
     e\<lparr>cameraX := cameraX e + dx / cameraZoom e, cameraY := cameraY e + dy / cameraZoom e\<rparr>"

definition eng_zoom :: "engine_config \<Rightarrow> real \<Rightarrow> real \<Rightarrow> real \<Rightarrow> engine \<Rightarrow> engine" where
  "eng_zoom cfg centerX centerY delta e =
     (let wp = world_under e (centerX, centerY);
          z = clamp_zoom cfg (applyDelta cfg (cameraZoom e) delta)
      in e\<lparr>cameraZoom := z, cameraX := fst wp - centerX / z, cameraY := snd wp - centerY / z\<rparr>)"

text \<open>Modelled from the spec: the read accessors; an unknown id reads as \<open>0\<close>.\<close>

definition eng_getObjectIdAtIndex :: "engine \<Rightarrow> nat \<Rightarrow> nat" where
  "eng_getObjectIdAtIndex e i = (if i < length (objectIds e) then objectIds e ! i else 0)"

definition eng_field :: "(CanvasObject \<Rightarrow> 'a::zero) \<Rightarrow> engine \<Rightarrow> nat \<Rightarrow> 'a" where
  "eng_field f e ident = (case objects e ident of None \<Rightarrow> 0 | Some ob \<Rightarrow> f ob)"

definition eng_objectExists :: "engine \<Rightarrow> nat \<Rightarrow> bool" where
  "eng_objectExists e ident = (objects e ident \<noteq> None)"

text \<open>
  The engine behind the declared interface: a failed call returns nothing to the host
  (the members are declared \<open>void\<close>) and leaves the engine as it was.
\<close>

definition spec_exports :: "engine WASMExports" where
  "spec_exports =
     \<lparr>addObject = (\<lambda>x y w h aid ty e.
         case eng_addObject x y w h aid ty e of Inl err \<Rightarrow> (0, e) | Inr r \<Rightarrow> r),
      moveObject = (\<lambda>i x y e. or_unchanged e (eng_moveObject i x y e)),
      resizeObject = (\<lambda>i x y w h e. or_unchanged e (eng_resizeObject i x y w h e)),
      deleteObject = (\<lambda>i e. or_unchanged e (eng_deleteObject i e)),
      beginBatchMove = (\<lambda>e. or_unchanged e (eng_beginBatchMove e)),
      addToBatchMove = (\<lambda>i x y e. or_unchanged e (eng_addToBatchMove i x y e)),
      endBatchMove = (\<lambda>e. or_unchanged e (eng_endBatchMove e)),
      beginBatchResize = (\<lambda>e. or_unchanged e (eng_beginBatchResize e)),
      addToBatchResize = (\<lambda>i x y w h e. or_unchanged e (eng_addToBatchResize i x y w h e)),
      endBatchResize = (\<lambda>e. or_unchanged e (eng_endBatchResize e)),
      getObjectCount = (\<lambda>e. length (objectIds e)),
      getObjectIdAtIndex = eng_getObjectIdAtIndex,
      getObjectX = eng_field obj_x,
      getObjectY = eng_field obj_y,
      getObjectWidth = eng_field obj_w,
      getObjectHeight = eng_field obj_h,
      getObjectAssetId = eng_field obj_assetId,
      undo = eng_undo,
      redo = eng_redo,
      canUndo = eng_canUndo,
      canRedo = eng_canRedo,
      getStateVersion = version\<rparr>"

text \<open>Calls on the engine, and the states a history of calls reaches from a fresh canvas.\<close>

datatype engine_call =
    ClearCanvas
  | AddObject real real real real nat nat
  | MoveObject nat real real
  | ResizeObject nat real real real real
  | DeleteObject nat
  | DeleteObjects "nat list"
  | BeginBatchMove
  | AddToBatchMove nat real real
  | EndBatchMove
  | BeginBatchResize
  | AddToBatchResize nat real real real real
  | EndBatchResize
  | Undo
  | Redo
  | SetGridSnap bool
  | SetGridSize real
  | Pan real real
  | Zoom real real real
  | UpdateCanvasSize real real

fun eng_step :: "engine_config \<Rightarrow> engine_call \<Rightarrow> engine \<Rightarrow> engine" where
  "eng_step cfg ClearCanvas e = eng_clearCanvas e"
| "eng_step cfg (AddObject x y w h aid ty) e =
     (case eng_addObject x y w h aid ty e of Inl err \<Rightarrow> e | Inr r \<Rightarrow> snd r)"
| "eng_step cfg (MoveObject i x y) e = or_unchanged e (eng_moveObject i x y e)"
| "eng_step cfg (ResizeObject i x y w h) e = or_unchanged e (eng_resizeObject i x y w h e)"
| "eng_step cfg (DeleteObject i) e = or_unchanged e (eng_deleteObject i e)"
| "eng_step cfg (DeleteObjects is) e = eng_deleteObjects is e"
| "eng_step cfg BeginBatchMove e = or_unchanged e (eng_beginBatchMove e)"
| "eng_step cfg (AddToBatchMove i x y) e = or_unchanged e (eng_addToBatchMove i x y e)"
| "eng_step cfg EndBatchMove e = or_unchanged e (eng_endBatchMove e)"
| "eng_step cfg BeginBatchResize e = or_unchanged e (eng_beginBatchResize e)"
| "eng_step cfg (AddToBatchResize i x y w h) e = or_unchanged e (eng_addToBatchResize i x y w h e)"
| "eng_step cfg EndBatchResize e = or_unchanged e (eng_endBatchResize e)"
| "eng_step cfg Undo e = snd (eng_undo e)"
| "eng_step cfg Redo e = snd (eng_redo e)"
| "eng_step cfg (SetGridSnap b) e = eng_setGridSnap b e"
| "eng_step cfg (SetGridSize n) e = eng_setGridSize n e"
| "eng_step cfg (Pan dx dy) e = eng_pan dx dy e"
| "eng_step cfg (Zoom cx cy d) e = eng_zoom cfg cx cy d e"
| "eng_step cfg (UpdateCanvasSize w h) e = eng_updateCanvasSize w h e"

definition eng_run :: "engine_config \<Rightarrow> engine_call list \<Rightarrow> engine \<Rightarrow> engine" where
  "eng_run cfg cs e = fold (eng_step cfg) cs e"

section \<open>The specified surface against the declared interface\<close>

lemma surface_declared_list:
  "list_all (\<lambda>entry. fst entry \<in> set [''getVisibleAssetId'', ''getVisibleType'']
                       \<or> declared_as entry) spec_surface"
  by code_simp

text \<open>
  C4, as stated, fails: expanding \<open>getVisible{ObjectId,AssetId,Type}(i)\<close> gives the name
  \<open>getVisibleAssetId\<close>, which the interface does not declare (it declares
  \<open>getVisibleObjectAssetId\<close>).
\<close>

theorem surface_getVisibleAssetId_undeclared:
  "(''getVisibleAssetId'', Some 1) \<in> set spec_surface \<and>
   declared_params ''getVisibleAssetId'' = None \<and>
   \<not> declared_as (''getVisibleAssetId'', Some 1)"
  by code_simp

text \<open>
  C4, amended.  Every operation of the specified surface other than the two expansions
  \<open>getVisibleAssetId\<close> and \<open>getVisibleType\<close> is declared in \<open>WASMExports\<close> under the
  same name, with the same number of parameters wherever section 6 gives a parameter
  list; in place of those two the interface declares \<open>getVisibleObjectAssetId(index)\<close>
  and \<open>getVisibleObjectType(index)\<close>.
\<close>

theorem surface_declared_except_visible:
  "(\<forall>entry \<in> set spec_surface.
      fst entry \<notin> {''getVisibleAssetId'', ''getVisibleType''} \<longrightarrow> declared_as entry) \<and>
   declared_params ''getVisibleObjectAssetId'' = Some [''index''] \<and>
   declared_params ''getVisibleObjectType'' = Some [''index'']"
proof -
  have "\<forall>entry \<in> set spec_surface.
      fst entry \<notin> {''getVisibleAssetId'', ''getVisibleType''} \<longrightarrow> declared_as entry"
    using surface_declared_list unfolding list_all_iff by auto
  moreover have "declared_params ''getVisibleObjectAssetId'' = Some [''index'']"
    by code_simp
  moreover have "declared_params ''getVisibleObjectType'' = Some [''index'']"
    by code_simp
  ultimately show ?thesis by blast
qed

theorem surface_declared_except_visible_witness:
  "(''zoom'', Some 3) \<in> set spec_surface \<and>
   fst (''zoom'', Some (3::nat)) \<notin> {''getVisibleAssetId'', ''getVisibleType''} \<and>
   declared_as (''zoom'', Some 3)"
proof -
  have m: "(''zoom'', Some 3) \<in> set spec_surface" by code_simp
  have n: "fst (''zoom'', Some (3::nat)) \<notin> {''getVisibleAssetId'', ''getVisibleType''}" by simp
  from surface_declared_except_visible m n have "declared_as (''zoom'', Some 3)" by blast
  with m n show ?thesis by blast
qed


section \<open>Host store: what \<open>syncFromWasm\<close> builds\<close>

definition kept :: "'e WASMExports \<Rightarrow> 'e \<Rightarrow> registries \<Rightarrow> nat \<Rightarrow> bool" where
  "kept w e r objectId = (objectId \<noteq> 0 \<and> getAssetSrc (getObjectAssetId w e objectId) r \<noteq> [])"

definition image_of :: "'e WASMExports \<Rightarrow> 'e \<Rightarrow> registries \<Rightarrow> nat \<Rightarrow> CanvasImage" where
  "image_of w e r objectId =
     \<lparr>img_id = ''img-'' @ show_nat objectId,
      img_x = getObjectX w e objectId,
      img_y = getObjectY w e objectId,
      img_width = getObjectWidth w e objectId,
      img_height = getObjectHeight w e objectId,
      img_src = getAssetSrc (getObjectAssetId w e objectId) r\<rparr>"

text \<open>A configuration and two host states to evaluate on: one image registered and added,
  before and after the synchronisation.\<close>

definition example_config :: engine_config where
  "example_config =
     \<lparr>minZoom = 1 / 10, maxZoom = 10, applyDelta = (\<lambda>z d. z * d),
      homeX = 0, homeY = 0, homeZoom = 1\<rparr>"

definition example_unsynced :: "engine host" where
  "example_unsynced =
     fold (initialize_image spec_exports) [(''a.png'', 0, 0, 100, 100)]
       (initial_host (eng_createCanvas example_config 800 600 25))"

definition example_host :: "engine host" where
  "example_host =
     initializeCanvasWithImages spec_exports [(''a.png'', 0, 0, 100, 100)]
       (initial_host (eng_createCanvas example_config 800 600 25))"

lemma sync_loop_eq:
  "sync_loop w e r i cnt imgs =
     imgs @ map (image_of w e r) (filter (kept w e r) (map (getObjectIdAtIndex w e) [i ..< cnt]))"
proof (induction "cnt - i" arbitrary: i imgs)
  case 0
  then show ?case by (simp add: sync_loop.simps [of w e r i cnt imgs])
next
  case (Suc n)
  then have lt: "i < cnt" and n: "n = cnt - Suc i" by simp_all
  have upt: "[i ..< cnt] = i # [Suc i ..< cnt]" using lt by (simp add: upt_conv_Cons)
  have step: "\<And>acc. sync_loop w e r (Suc i) cnt acc =
     acc @ map (image_of w e r) (filter (kept w e r) (map (getObjectIdAtIndex w e) [Suc i ..< cnt]))"
    using Suc.hyps(1) [OF n] .
  show ?case
    using lt
    by (subst sync_loop.simps) (simp add: step upt Let_def kept_def image_of_def)
qed

lemma syncFromWasm_frame:
  "engine (syncFromWasm w h) = engine h"
  "calls (syncFromWasm w h) = calls h"
  "registry (syncFromWasm w h) = registry h"
  by (simp_all add: syncFromWasm_def Let_def emitChange_def)

lemma syncFromWasm_changed:
  assumes "getStateVersion w (engine h) \<noteq> stateVersion (currentState h)"
  shows "syncFromWasm w h =
        h\<lparr>currentState :=
            \<lparr>images = map (image_of w (engine h) (registry h))
                         (filter (kept w (engine h) (registry h))
                            (map (getObjectIdAtIndex w (engine h)) [0 ..< getObjectCount w (engine h)])),
             stateVersion = getStateVersion w (engine h)\<rparr>,
          emitted := emitted h + 1\<rparr>"
  using assms by (simp add: syncFromWasm_def Let_def emitChange_def sync_loop_eq)

lemma show_nat_Suc_0: "show_nat (Suc 0) = ''1''"
  by code_simp

lemmas host_eval =
  batchMoveObjects_def batch_move_entry_def call_addToBatchMove_def bind_args_def
  declared_params_def WASMExports_interface_def example_host_def example_unsynced_def
  initializeCanvasWithImages_def initialize_image_def initial_host_def eng_createCanvas_def
  registerAsset_def initial_registries_def invoke_def spec_exports_def eng_addObject_def
  commit_def Let_def truthy_def syncFromWasm_def emitChange_def sync_loop_eq kept_def
  image_of_def getAssetSrc_def eng_getObjectIdAtIndex_def eng_field_def show_nat_Suc_0
  example_config_def or_unchanged_def eng_beginBatchMove_def eng_addToBatchMove_def
  eng_endBatchMove_def set_position_def position_of_def useCanvasActions_undo_def
  eng_canUndo_def eng_undo_def

text \<open>
  C3.  When the engine's version equals the store's last-synced version, \<open>syncFromWasm\<close>
  returns the module state as it was: same \<open>currentState\<close> (images and version), no run
  of \<open>emitChange\<close>.  Otherwise the new images are one entry for every index
  \<open>0 \<le> i < getObjectCount()\<close>, in index order, whose object id is not \<open>0\<close> and whose
  asset has a non-empty registered source, read from the engine; the version becomes the
  engine's; \<open>emitChange\<close> runs once; nothing else changes.
\<close>

theorem syncFromWasm_version_gate:
  "(getStateVersion w (engine h) = stateVersion (currentState h) \<longrightarrow> syncFromWasm w h = h) \<and>
   (getStateVersion w (engine h) \<noteq> stateVersion (currentState h) \<longrightarrow>
      syncFromWasm w h =
        h\<lparr>currentState :=
            \<lparr>images = map (image_of w (engine h) (registry h))
                         (filter (kept w (engine h) (registry h))
                            (map (getObjectIdAtIndex w (engine h)) [0 ..< getObjectCount w (engine h)])),
             stateVersion = getStateVersion w (engine h)\<rparr>,
          emitted := emitted h + 1\<rparr>)"
  by (simp add: syncFromWasm_def Let_def emitChange_def sync_loop_eq)

theorem syncFromWasm_version_gate_witness:
  "syncFromWasm spec_exports example_host = example_host \<and>
   stateVersion (currentState (syncFromWasm spec_exports example_unsynced)) = 1 \<and>
   emitted (syncFromWasm spec_exports example_unsynced) = 1 \<and>
   map img_id (images (currentState (syncFromWasm spec_exports example_unsynced))) = [''img-1'']"
proof -
  have same: "getStateVersion spec_exports (engine example_host)
                = stateVersion (currentState example_host)"
    by (simp add: host_eval)
  have diff: "getStateVersion spec_exports (engine example_unsynced)
                \<noteq> stateVersion (currentState example_unsynced)"
    by (simp add: host_eval)
  from syncFromWasm_version_gate [of spec_exports example_host] same
  have a: "syncFromWasm spec_exports example_host = example_host" by blast
  from syncFromWasm_version_gate [of spec_exports example_unsynced] diff
  have b: "syncFromWasm spec_exports example_unsynced =
        example_unsynced\<lparr>currentState :=
            \<lparr>images = map (image_of spec_exports (engine example_unsynced) (registry example_unsynced))
                         (filter (kept spec_exports (engine example_unsynced) (registry example_unsynced))
                            (map (getObjectIdAtIndex spec_exports (engine example_unsynced))
                               [0 ..< getObjectCount spec_exports (engine example_unsynced)])),
             stateVersion = getStateVersion spec_exports (engine example_unsynced)\<rparr>,
          emitted := emitted example_unsynced + 1\<rparr>" by blast
  have c: "stateVersion (currentState (syncFromWasm spec_exports example_unsynced)) = 1"
    unfolding b by (simp add: host_eval)
  have d: "emitted (syncFromWasm spec_exports example_unsynced) = 1"
    unfolding b by (simp add: host_eval)
  have e: "map img_id (images (currentState (syncFromWasm spec_exports example_unsynced))) = [''img-1'']"
    unfolding b by (simp add: host_eval)
  from a c d e show ?thesis by blast
qed

section \<open>Host store: string ids and numeric ids\<close>

lemma digit_table:
  "\<forall>d \<in> set [0 ..< 10]. is_digit (char_of (48 + d)) \<and> digit_val (char_of (48 + d)) = d"
  by code_simp

lemma digit_char:
  assumes "d < 10"
  shows "is_digit (char_of (48 + d))" and "digit_val (char_of (48 + d)) = d"
  using digit_table assms by auto

lemma show_nat_digits: "list_all is_digit (show_nat n) \<and> show_nat n \<noteq> []"
proof (induction n rule: show_nat.induct)
  case (1 n)
  show ?case
  proof (cases "n < 10")
    case True
    then show ?thesis by (subst (1 2) show_nat.simps) (simp add: digit_char)
  next
    case False
    then show ?thesis using 1 by (subst (1 2) show_nat.simps) (simp add: digit_char)
  qed
qed

lemma parseInt10_snoc: "parseInt10 (xs @ [c]) = 10 * parseInt10 xs + digit_val c"
  by (simp add: parseInt10_def)

lemma parseInt10_show_nat: "parseInt10 (show_nat n) = n"
proof (induction n rule: show_nat.induct)
  case (1 n)
  show ?case
  proof (cases "n < 10")
    case True
    then show ?thesis by (subst show_nat.simps) (simp add: parseInt10_def digit_char)
  next
    case False
    then show ?thesis using 1
      by (subst show_nat.simps) (simp add: parseInt10_snoc digit_char)
  qed
qed

lemma takeWhile_all: "list_all P xs \<Longrightarrow> takeWhile P xs = xs"
  by (induction xs) simp_all

lemma getNumericId_show_nat: "getNumericId (''img-'' @ show_nat n) = n"
proof -
  have "match_here (''img-'' @ show_nat n) = Some (show_nat n)"
    using show_nat_digits [of n] by (simp add: match_here_def takeWhile_all)
  then have "regex_match (''img-'' @ show_nat n) = Some (show_nat n)" by simp
  then show ?thesis by (simp add: getNumericId_def parseInt10_show_nat)
qed

lemma match_here_Some:
  assumes "match_here s = Some ds"
  shows "\<exists>v. s = ''img-'' @ ds @ v" and "ds \<noteq> []" and "list_all is_digit ds"
proof -
  from assms have t: "take 4 s = ''img-''" and ds: "ds = takeWhile is_digit (drop 4 s)" and ne: "ds \<noteq> []"
    by (auto simp: match_here_def Let_def split: if_splits)
  have "s = take 4 s @ takeWhile is_digit (drop 4 s) @ dropWhile is_digit (drop 4 s)" by simp
  then have "s = ''img-'' @ ds @ dropWhile is_digit (drop 4 s)" using t ds by simp
  then show "\<exists>v. s = ''img-'' @ ds @ v" by blast
  show "ds \<noteq> []" by (rule ne)
  show "list_all is_digit ds" unfolding ds list_all_iff by (auto dest: set_takeWhileD)
qed

lemma regex_match_Some:
  "regex_match s = Some ds \<Longrightarrow> \<exists>u v. s = u @ ''img-'' @ ds @ v \<and> ds \<noteq> [] \<and> list_all is_digit ds"
proof (induction s)
  case Nil
  then show ?case by (simp add: match_here_def)
next
  case (Cons c cs)
  show ?case
  proof (cases "match_here (c # cs)")
    case (Some d)
    with Cons.prems have "d = ds" by simp
    with Some match_here_Some [of "c # cs" ds] show ?thesis
      by (metis append_Nil)
  next
    case None
    with Cons.prems have "regex_match cs = Some ds" by simp
    from Cons.IH [OF this] obtain u v where "cs = u @ ''img-'' @ ds @ v" "ds \<noteq> []" "list_all is_digit ds" by blast
    then have "c # cs = (c # u) @ ''img-'' @ ds @ v" by simp
    then show ?thesis using \<open>ds \<noteq> []\<close> \<open>list_all is_digit ds\<close> by blast
  qed
qed

lemma getNumericId_no_match:
  assumes "\<not> (\<exists>u d v. s = u @ ''img-'' @ d # v \<and> is_digit d)"
  shows "getNumericId s = 0"
proof (cases "regex_match s")
  case None
  then show ?thesis by (simp add: getNumericId_def)
next
  case (Some ds)
  from regex_match_Some [OF this] obtain u v where s: "s = u @ ''img-'' @ ds @ v" and ne: "ds \<noteq> []"
    and dg: "list_all is_digit ds" by blast
  from ne obtain d ds' where "ds = d # ds'" by (cases ds) auto
  with s dg have "s = u @ ''img-'' @ d # (ds' @ v) \<and> is_digit d" by simp
  with assms show ?thesis by blast
qed


text \<open>
  C7, as stated, fails in its second half: the regular expression is not anchored, so a
  string that is not of the form \<open>img-<digits>\<close> but contains such a piece is mapped to
  the number in it.
\<close>

theorem getNumericId_unanchored:
  "\<not> img_form ''ximg-7'' \<and> getNumericId ''ximg-7'' = 7"
  by code_simp

text \<open>
  C7, amended.  The images \<open>syncFromWasm\<close> builds come only from index slots whose object
  id is not \<open>0\<close>: each image's id is \<open>img-\<close> followed by the decimal digits of such a
  slot's id, and \<open>getNumericId\<close> maps it back to that non-zero id.  \<open>getNumericId\<close> maps
  to \<open>0\<close> every string in which no occurrence of \<open>img-\<close> is directly followed by a
  decimal digit.
\<close>

theorem object_id_zero_sentinel:
  "(getStateVersion w (engine h) \<noteq> stateVersion (currentState h) \<longrightarrow>
      (\<forall>img \<in> set (images (currentState (syncFromWasm w h))).
          \<exists>i < getObjectCount w (engine h).
             getObjectIdAtIndex w (engine h) i \<noteq> 0 \<and>
             img_id img = ''img-'' @ show_nat (getObjectIdAtIndex w (engine h) i) \<and>
             getNumericId (img_id img) = getObjectIdAtIndex w (engine h) i)) \<and>
   ((\<not> (\<exists>u d v. s = u @ ''img-'' @ d # v \<and> is_digit d)) \<longrightarrow> getNumericId s = 0)"
proof (intro conjI impI ballI)
  fix img
  assume v: "getStateVersion w (engine h) \<noteq> stateVersion (currentState h)"
    and m: "img \<in> set (images (currentState (syncFromWasm w h)))"
  from m obtain oid where oid: "oid \<in> set (map (getObjectIdAtIndex w (engine h))
                                         [0 ..< getObjectCount w (engine h)])"
    and k: "kept w (engine h) (registry h) oid"
    and img: "img = image_of w (engine h) (registry h) oid"
    unfolding syncFromWasm_changed [OF v] by auto
  from oid obtain i where i: "i < getObjectCount w (engine h)"
    and oi: "oid = getObjectIdAtIndex w (engine h) i" by auto
  have "img_id img = ''img-'' @ show_nat oid" using img by (simp add: image_of_def)
  moreover have "getNumericId (''img-'' @ show_nat oid) = oid" by (rule getNumericId_show_nat)
  moreover have "oid \<noteq> 0" using k by (simp add: kept_def)
  ultimately show "\<exists>i < getObjectCount w (engine h).
             getObjectIdAtIndex w (engine h) i \<noteq> 0 \<and>
             img_id img = ''img-'' @ show_nat (getObjectIdAtIndex w (engine h) i) \<and>
             getNumericId (img_id img) = getObjectIdAtIndex w (engine h) i"
    using i oi by auto
next
  assume "\<not> (\<exists>u d v. s = u @ ''img-'' @ d # v \<and> is_digit d)"
  then show "getNumericId s = 0" by (rule getNumericId_no_match)
qed

theorem object_id_zero_sentinel_witness:
  "getNumericId (img_id (hd (images (currentState (syncFromWasm spec_exports example_unsynced))))) = 1 \<and>
   getNumericId ''photo7'' = 0"
proof -
  have diff: "getStateVersion spec_exports (engine example_unsynced)
                \<noteq> stateVersion (currentState example_unsynced)"
    by (simp add: host_eval)
  have imgs: "images (currentState (syncFromWasm spec_exports example_unsynced)) =
     [\<lparr>img_id = ''img-1'', img_x = 0, img_y = 0, img_width = 100, img_height = 100,
       img_src = ''a.png''\<rparr>]"
    by (simp add: host_eval)
  have cnt: "getObjectCount spec_exports (engine example_unsynced) = 1"
    by (simp add: host_eval)
  have at0: "getObjectIdAtIndex spec_exports (engine example_unsynced) 0 = 1"
    by (simp add: host_eval)
  have nomatch: "\<not> (\<exists>u d v. ''photo7'' = u @ ''img-'' @ d # v \<and> is_digit d)"
  proof
    assume "\<exists>u d v. ''photo7'' = u @ ''img-'' @ d # v \<and> is_digit d"
    then obtain u d v where "''photo7'' = u @ ''img-'' @ d # v" by blast
    then have "set ''photo7'' = set (u @ ''img-'' @ d # v)" by simp
    then have "CHR ''-'' \<in> set ''photo7''" by simp
    then show False by simp
  qed
  from object_id_zero_sentinel [of spec_exports example_unsynced "''photo7''"] diff nomatch
  have a: "\<forall>img \<in> set (images (currentState (syncFromWasm spec_exports example_unsynced))).
          \<exists>i < getObjectCount spec_exports (engine example_unsynced).
             getObjectIdAtIndex spec_exports (engine example_unsynced) i \<noteq> 0 \<and>
             img_id img = ''img-'' @ show_nat (getObjectIdAtIndex spec_exports (engine example_unsynced) i) \<and>
             getNumericId (img_id img) = getObjectIdAtIndex spec_exports (engine example_unsynced) i"
    and b: "getNumericId ''photo7'' = 0" by blast+
  from a have "\<exists>i < getObjectCount spec_exports (engine example_unsynced).
       getNumericId (img_id (hd (images (currentState (syncFromWasm spec_exports example_unsynced)))))
         = getObjectIdAtIndex spec_exports (engine example_unsynced) i"
    unfolding imgs by auto
  then have "getNumericId (img_id (hd (images (currentState (syncFromWasm spec_exports example_unsynced))))) = 1"
    unfolding cnt using at0 by auto
  with b show ?thesis by blast
qed


section \<open>Undo with nothing to undo\<close>

text \<open>
  C5.  The engine's \<open>undo\<close> on an empty undo stack returns \<open>false\<close> and the engine as
  it was.  The host's undo action returns \<open>false\<close> and leaves everything as it was (no
  engine command issued) when the handle is \<open>null\<close> or \<open>canUndo()\<close> is \<open>false\<close>;
  otherwise it issues exactly the engine's \<open>undo()\<close>, synchronises, and returns \<open>true\<close>.
\<close>

theorem undo_empty_history:
  "(undoStack e = [] \<longrightarrow> eng_undo e = (False, e)) \<and>
   useCanvasActions_undo None h = (False, h) \<and>
   (\<not> canUndo w (engine h) \<longrightarrow> useCanvasActions_undo (Some w) h = (False, h)) \<and>
   (canUndo w (engine h) \<longrightarrow>
      fst (useCanvasActions_undo (Some w) h) \<and>
      engine (snd (useCanvasActions_undo (Some w) h)) = snd (undo w (engine h)) \<and>
      calls (snd (useCanvasActions_undo (Some w) h)) = calls h @ [(''undo'', [])])"
proof -
  have "undoStack e = [] \<longrightarrow> eng_undo e = (False, e)"
    by (simp add: eng_undo_def)
  moreover have "useCanvasActions_undo None h = (False, h)"
    by (simp add: useCanvasActions_undo_def)
  moreover have "\<not> canUndo w (engine h) \<longrightarrow> useCanvasActions_undo (Some w) h = (False, h)"
    by (simp add: useCanvasActions_undo_def)
  moreover have "canUndo w (engine h) \<longrightarrow>
      fst (useCanvasActions_undo (Some w) h) \<and>
      engine (snd (useCanvasActions_undo (Some w) h)) = snd (undo w (engine h)) \<and>
      calls (snd (useCanvasActions_undo (Some w) h)) = calls h @ [(''undo'', [])]"
    by (simp add: useCanvasActions_undo_def syncFromWasm_frame invoke_def)
  ultimately show ?thesis by blast
qed

theorem undo_empty_history_witness:
  "eng_undo (eng_createCanvas example_config 800 600 25)
     = (False, eng_createCanvas example_config 800 600 25) \<and>
   useCanvasActions_undo (Some spec_exports) (initial_host (eng_createCanvas example_config 800 600 25))
     = (False, initial_host (eng_createCanvas example_config 800 600 25)) \<and>
   fst (useCanvasActions_undo (Some spec_exports) example_host) \<and>
   calls (snd (useCanvasActions_undo (Some spec_exports) example_host))
     = calls example_host @ [(''undo'', [])]"
proof -
  let ?e = "eng_createCanvas example_config 800 600 25"
  have e: "undoStack ?e = []" by (simp add: eng_createCanvas_def)
  have n: "\<not> canUndo spec_exports (engine (initial_host ?e))"
    by (simp add: host_eval)
  have y: "canUndo spec_exports (engine example_host)"
    by (simp add: host_eval)
  from undo_empty_history [of ?e "initial_host ?e" spec_exports] e n
  have a: "eng_undo ?e = (False, ?e)"
    and b: "useCanvasActions_undo (Some spec_exports) (initial_host ?e) = (False, initial_host ?e)"
    by blast+
  from undo_empty_history [of ?e example_host spec_exports] y
  have c: "fst (useCanvasActions_undo (Some spec_exports) example_host)"
    and d: "calls (snd (useCanvasActions_undo (Some spec_exports) example_host))
              = calls example_host @ [(''undo'', [])]"
    by blast+
  from a b c d show ?thesis by blast
qed

section \<open>The batch move issued by the host\<close>

text \<open>
  For every engine behind the interface, a one-entry batch issues \<open>beginBatchMove\<close>, one
  \<open>addToBatchMove\<close> with five arguments (the id, the position read back from the
  engine, the requested position) and \<open>endBatchMove\<close>; the engine receives the first
  three of the five.
\<close>

lemma bind_args_addToBatchMove:
  "bind_args ''addToBatchMove'' [a, b, c, d, e] = [a, b, c]"
  by (simp add: bind_args_def declared_params_def WASMExports_interface_def)

lemma batchMoveObjects_single:
  "calls (batchMoveObjects (Some w) [(objectId, x, y)] h) =
     calls h @
       [(''beginBatchMove'', []),
        (''addToBatchMove'',
           [real objectId,
            getObjectX w (beginBatchMove w (engine h)) objectId,
            getObjectY w (beginBatchMove w (engine h)) objectId, x, y]),
        (''endBatchMove'', [])] \<and>
   engine (batchMoveObjects (Some w) [(objectId, x, y)] h) =
     endBatchMove w
       (addToBatchMove w objectId
          (getObjectX w (beginBatchMove w (engine h)) objectId)
          (getObjectY w (beginBatchMove w (engine h)) objectId)
          (beginBatchMove w (engine h)))"
  by (simp add: batchMoveObjects_def batch_move_entry_def call_addToBatchMove_def
      bind_args_addToBatchMove invoke_def Let_def syncFromWasm_frame)

text \<open>
  C1 does not hold of the code.  For the one-entry batch \<open>{objectId: 1, x: 50, y: 50}\<close> on
  a canvas whose object \<open>1\<close> is at \<open>(0, 0)\<close>, the host calls
  \<open>addToBatchMove(1, 0, 0, 50, 50)\<close>: the position read back from the engine sits in the
  two slots the interface declares as \<open>newX\<close>, \<open>newY\<close>, and the requested position is
  passed beyond the declared parameters.  Bound to the declared parameters the call is
  \<open>addToBatchMove(1, 0, 0)\<close>, and the object stays at \<open>(0, 0)\<close>.
\<close>

theorem batchMoveObjects_passes_old_position:
  "calls (batchMoveObjects (Some spec_exports) [(1, 50, 50)] example_host) =
     calls example_host @
       [(''beginBatchMove'', []), (''addToBatchMove'', [1, 0, 0, 50, 50]), (''endBatchMove'', [])] \<and>
   declared_params ''addToBatchMove'' = Some [''objectId'', ''newX'', ''newY''] \<and>
   bind_args ''addToBatchMove'' [1, 0, 0, 50, 50] = [1, 0, 0] \<and>
   eng_field obj_x (engine example_host) 1 = 0 \<and>
   eng_field obj_y (engine example_host) 1 = 0 \<and>
   eng_field obj_x (engine (batchMoveObjects (Some spec_exports) [(1, 50, 50)] example_host)) 1 = 0 \<and>
   eng_field obj_y (engine (batchMoveObjects (Some spec_exports) [(1, 50, 50)] example_host)) 1 = 0"
proof -
  have "calls (batchMoveObjects (Some spec_exports) [(1, 50, 50)] example_host) =
     calls example_host @
       [(''beginBatchMove'', []), (''addToBatchMove'', [1, 0, 0, 50, 50]), (''endBatchMove'', [])]"
    by (simp add: host_eval)
  moreover have "declared_params ''addToBatchMove'' = Some [''objectId'', ''newX'', ''newY'']"
    by (simp add: host_eval)
  moreover have "bind_args ''addToBatchMove'' [1, 0, 0, 50, 50] = [1, 0, 0]"
    by (simp add: host_eval)
  moreover have "eng_field obj_x (engine example_host) 1 = 0"
    by (simp add: host_eval)
  moreover have "eng_field obj_y (engine example_host) 1 = 0"
    by (simp add: host_eval)
  moreover have
    "eng_field obj_x (engine (batchMoveObjects (Some spec_exports) [(1, 50, 50)] example_host)) 1 = 0"
    by (simp add: host_eval)
  moreover have
    "eng_field obj_y (engine (batchMoveObjects (Some spec_exports) [(1, 50, 50)] example_host)) 1 = 0"
    by (simp add: host_eval)
  ultimately show ?thesis by blast
qed


section \<open>Grid worker: the visual grid spacing (workers/grid.worker.ts)\<close>

text \<open>
  The spacing adjustment of \<open>processRender\<close>.  A JavaScript number is a binary64 value:
  a finite real that rounding leaves unchanged (\<open>is_double\<close>), one of the two infinities,
  or NaN.  The sign of zero is left out: no comparison of the worker depends on it.
  The result of a multiplication or a division is the exact real result rounded to the
  nearest binary64 value, ties to even (\<open>round_binary64\<close>): \<open>expo\<close> is the binary exponent
  of a positive real, \<open>ulp\<close> the distance between the binary64 values around a real (53
  significant bits, and the fixed spacing \<open>2^-1074\<close> of the subnormal range below
  \<open>2^-1022\<close>), \<open>rne\<close> the nearest integer, ties to even; a rounded result of magnitude
  \<open>2^1024\<close> or more overflows to an infinity.
\<close>

datatype number = Fin real | PInf | NInf | NaN

definition overflow_threshold :: real where
  "overflow_threshold = 2 ^ 1024"

definition overflow :: "real \<Rightarrow> number" where
  "overflow r =
     (if overflow_threshold \<le> r then PInf
      else if r \<le> - overflow_threshold then NInf else Fin r)"

function expo :: "real \<Rightarrow> int" where
  "expo x =
     (if x \<le> 0 then 0
      else if 2 \<le> x then expo (x / 2) + 1
      else if x < 1 then expo (x * 2) - 1
      else 0)"
  by pat_completeness auto
termination
proof (relation "measure (\<lambda>x. if 1 \<le> x then nat \<lfloor>x\<rfloor> else nat \<lceil>1 / x\<rceil>)")
  show "wf (measure (\<lambda>x::real. if 1 \<le> x then nat \<lfloor>x\<rfloor> else nat \<lceil>1 / x\<rceil>))" by simp
next
  fix x :: real
  assume "\<not> x \<le> 0" "2 \<le> x"
  then have "\<lfloor>x / 2\<rfloor> < \<lfloor>x\<rfloor>" "0 < \<lfloor>x\<rfloor>" by linarith+
  then show "(x / 2, x) \<in> measure (\<lambda>x. if 1 \<le> x then nat \<lfloor>x\<rfloor> else nat \<lceil>1 / x\<rceil>)"
    using \<open>2 \<le> x\<close> by simp
next
  fix x :: real
  assume a: "\<not> x \<le> 0" "\<not> 2 \<le> x" "x < 1"
  then have i: "1 < 1 / x" by simp
  then have c: "2 \<le> \<lceil>1 / x\<rceil>" by linarith
  show "(x * 2, x) \<in> measure (\<lambda>x. if 1 \<le> x then nat \<lfloor>x\<rfloor> else nat \<lceil>1 / x\<rceil>)"
  proof (cases "1 \<le> x * 2")
    case True
    then have "\<lfloor>x * 2\<rfloor> = 1" using a by linarith
    then show ?thesis using True a c by simp
  next
    case False
    have h: "1 / (x * 2) = (1 / x) / 2" by simp
    have "\<lceil>1 / (x * 2)\<rceil> < \<lceil>1 / x\<rceil>"
    proof (cases "1 / x \<le> 2")
      case True
      then have "\<lceil>1 / (x * 2)\<rceil> \<le> 1" unfolding h by (simp add: ceiling_le_iff)
      then show ?thesis using c by linarith
    next
      case False
      have "real_of_int \<lceil>1 / x / 2\<rceil> < 1 / x / 2 + 1" by linarith
      also have "\<dots> < 1 / x" using False by simp
      also have "\<dots> \<le> real_of_int \<lceil>1 / x\<rceil>" by linarith
      finally show ?thesis unfolding h by simp
    qed
    then show ?thesis using False a c by simp
  qed
qed

declare expo.simps [simp del]

definition ulp :: "real \<Rightarrow> real" where
  "ulp x = 2 powi (max (expo \<bar>x\<bar>) (- 1022) - 52)"

definition rne :: "real \<Rightarrow> int" where
  "rne y =
     (let f = \<lfloor>y\<rfloor>; d = y - of_int f
      in if d < 1 / 2 then f
         else if 1 / 2 < d then f + 1
         else if even f then f else f + 1)"

definition rnd :: "real \<Rightarrow> real" where
  "rnd x = of_int (rne (x / ulp x)) * ulp x"

definition round_binary64 :: "real \<Rightarrow> number" where
  "round_binary64 x = overflow (rnd x)"

definition is_double :: "real \<Rightarrow> bool" where
  "is_double x = (round_binary64 x = Fin x)"

text \<open>
  The operators of the worker: \<open>*\<close>, \<open>/= 2\<close>, \<open><\<close> and \<open><=\<close>, with the infinities and NaN
  as IEEE 754 has them.
\<close>

fun times_number :: "number \<Rightarrow> number \<Rightarrow> number" where
  "times_number (Fin a) (Fin b) = round_binary64 (a * b)"
| "times_number NaN y = NaN"
| "times_number x NaN = NaN"
| "times_number PInf (Fin b) = (if 0 < b then PInf else if b < 0 then NInf else NaN)"
| "times_number NInf (Fin b) = (if 0 < b then NInf else if b < 0 then PInf else NaN)"
| "times_number (Fin a) PInf = (if 0 < a then PInf else if a < 0 then NInf else NaN)"
| "times_number (Fin a) NInf = (if 0 < a then NInf else if a < 0 then PInf else NaN)"
| "times_number PInf PInf = PInf"
| "times_number PInf NInf = NInf"
| "times_number NInf PInf = NInf"
| "times_number NInf NInf = PInf"

fun half_number :: "number \<Rightarrow> number" where
  "half_number (Fin a) = round_binary64 (a / 2)"
| "half_number x = x"

fun less_number :: "number \<Rightarrow> number \<Rightarrow> bool" where
  "less_number (Fin a) (Fin b) = (a < b)"
| "less_number NaN y = False"
| "less_number x NaN = False"
| "less_number x NInf = False"
| "less_number PInf y = False"
| "less_number NInf y = True"
| "less_number (Fin a) PInf = True"

fun le_number :: "number \<Rightarrow> number \<Rightarrow> bool" where
  "le_number (Fin a) (Fin b) = (a \<le> b)"
| "le_number NaN y = False"
| "le_number x NaN = False"
| "le_number NInf y = True"
| "le_number x PInf = True"
| "le_number PInf y = False"
| "le_number (Fin a) NInf = False"

text \<open>
  The two \<open>while\<close> loops and the adjustment itself.  Each loop is a partial function: not
  returning is the value \<open>None\<close>.
\<close>

partial_function (option) double_spacing :: "number \<Rightarrow> number \<Rightarrow> number option" where
  "double_spacing visualGridSize scale =
     (if less_number (times_number visualGridSize scale) (Fin 15)
      then double_spacing (times_number visualGridSize (Fin 2)) scale
      else Some visualGridSize)"

partial_function (option) halve_spacing :: "number \<Rightarrow> number \<Rightarrow> number option" where
  "halve_spacing visualGridSize scale =
     (if less_number (Fin 150) (times_number visualGridSize scale)
      then halve_spacing (half_number visualGridSize) scale
      else Some visualGridSize)"

declare double_spacing.simps [code]
declare halve_spacing.simps [code]

definition visual_grid_size :: "number \<Rightarrow> number \<Rightarrow> number option" where
  "visual_grid_size gridSize scale =
     (let screenGridSize = times_number gridSize scale
      in if less_number screenGridSize (Fin 15) then double_spacing gridSize scale
         else if less_number (Fin 150) screenGridSize then halve_spacing gridSize scale
         else Some gridSize)"

definition MIN_VALUE :: real where
  "MIN_VALUE = 1 / 2 ^ 1074"


text \<open>
  The binary64 number nearest to \<open>0.6\<close>, and its half, the number nearest to \<open>0.3\<close>.
\<close>

definition scale_06 :: real where
  "scale_06 = 5404319552844595 / 2 ^ 53"

definition scale_03 :: real where
  "scale_03 = 5404319552844595 / 2 ^ 54"


section \<open>Grid worker: termination and bounds of the spacing loops\<close>

lemma expo_bounds: "0 < x \<Longrightarrow> 2 powi expo x \<le> x \<and> x < 2 powi (expo x + 1)"
proof (induction x rule: expo.induct)
  case (1 x)
  show ?case
  proof (cases "2 \<le> x")
    case True
    then have e: "expo x = expo (x / 2) + 1" using 1(3) by (subst expo.simps) simp
    have "2 powi expo (x / 2) \<le> x / 2 \<and> x / 2 < 2 powi (expo (x / 2) + 1)"
      using 1(1) [OF _ True] 1(3) by simp
    then show ?thesis unfolding e by (simp add: power_int_add)
  next
    case False
    show ?thesis
    proof (cases "x < 1")
      case True
      then have e: "expo x = expo (x * 2) - 1" using 1(3) False by (subst expo.simps) simp
      have "2 powi expo (x * 2) \<le> x * 2 \<and> x * 2 < 2 powi (expo (x * 2) + 1)"
        using 1(2) [OF _ False True] 1(3) by simp
      then show ?thesis unfolding e by (simp add: power_int_add power_int_diff)
    next
      case nl: False
      then have "expo x = 0" using False 1(3) by (subst expo.simps) simp
      then show ?thesis using False nl by simp
    qed
  qed
qed

lemma expo_unique:
  assumes "2 powi k \<le> x" "x < 2 powi (k + 1)"
  shows "expo x = k"
proof -
  have "0 < (2::real) powi k" by (simp add: zero_less_power_int)
  then have pos: "0 < x" using assms(1) by linarith
  note b = expo_bounds [OF pos]
  have "\<not> expo x < k"
  proof
    assume "expo x < k"
    then have "(2::real) powi (expo x + 1) \<le> 2 powi k" by (intro power_int_increasing) simp_all
    with b assms(1) show False by linarith
  qed
  moreover have "\<not> k < expo x"
  proof
    assume "k < expo x"
    then have "(2::real) powi (k + 1) \<le> 2 powi expo x" by (intro power_int_increasing) simp_all
    with b assms(2) show False by linarith
  qed
  ultimately show ?thesis by linarith
qed

lemma rne_of_int: "rne (of_int k) = k"
  by (simp add: rne_def)

lemma rne_ge: "of_int k \<le> y \<Longrightarrow> k \<le> rne y"
proof -
  assume "of_int k \<le> y"
  then have "k \<le> \<lfloor>y\<rfloor>" by (simp add: le_floor_iff)
  moreover have "\<lfloor>y\<rfloor> \<le> rne y" by (simp add: rne_def Let_def)
  ultimately show ?thesis by linarith
qed

lemma rne_le: "y \<le> of_int k \<Longrightarrow> rne y \<le> k"
proof (cases "y = of_int k")
  case True
  then show ?thesis by (simp add: rne_of_int)
next
  case False
  assume "y \<le> of_int k"
  with False have "y < of_int k" by simp
  then have "\<lfloor>y\<rfloor> < k" by (simp add: floor_less_iff)
  moreover have "rne y \<le> \<lfloor>y\<rfloor> + 1" by (simp add: rne_def Let_def)
  ultimately show ?thesis by linarith
qed

lemma ulp_pos: "0 < ulp x"
  by (simp add: ulp_def zero_less_power_int)

lemma rnd_le:
  assumes "x \<le> of_int k * ulp x"
  shows "rnd x \<le> of_int k * ulp x"
proof -
  have "x / ulp x \<le> of_int k" using assms ulp_pos [of x] by (simp add: pos_divide_le_eq)
  then have "rne (x / ulp x) \<le> k" by (rule rne_le)
  then have "real_of_int (rne (x / ulp x)) \<le> of_int k" by simp
  then show ?thesis unfolding rnd_def using ulp_pos [of x] by (simp add: mult_right_mono)
qed

lemma rnd_ge:
  assumes "of_int k * ulp x \<le> x"
  shows "of_int k * ulp x \<le> rnd x"
proof -
  have "of_int k \<le> x / ulp x" using assms ulp_pos [of x] by (simp add: pos_le_divide_eq)
  then have "k \<le> rne (x / ulp x)" by (rule rne_ge)
  then have "real_of_int k \<le> of_int (rne (x / ulp x))" by simp
  then show ?thesis unfolding rnd_def using ulp_pos [of x] by (simp add: mult_right_mono)
qed

lemma rnd_exact:
  assumes "x = of_int k * ulp x"
  shows "rnd x = x"
proof -
  have "x / ulp x = of_int k" using assms ulp_pos [of x] by (simp add: divide_eq_eq)
  then show ?thesis unfolding rnd_def using assms by (simp add: rne_of_int)
qed

lemma rnd_fixed: "rnd x = x \<Longrightarrow> \<exists>k. x = of_int k * ulp x"
  unfolding rnd_def by metis

lemma rnd_nonneg: "0 \<le> x \<Longrightarrow> 0 \<le> rnd x"
  using rnd_ge [of 0 x] by simp

lemma expo_small:
  assumes "\<bar>x\<bar> < 2 ^ 53"
  shows "expo \<bar>x\<bar> \<le> 52"
proof (cases "x = 0")
  case True
  then show ?thesis by (simp add: expo.simps)
next
  case False
  then have "0 < \<bar>x\<bar>" by simp
  from expo_bounds [OF this] have b: "2 powi expo \<bar>x\<bar> \<le> \<bar>x\<bar>" by simp
  show ?thesis
  proof (rule ccontr)
    assume "\<not> expo \<bar>x\<bar> \<le> 52"
    then have "(2::real) powi 53 \<le> 2 powi expo \<bar>x\<bar>" by (intro power_int_increasing) simp_all
    with b assms show False by simp
  qed
qed

lemma int_multiple_ulp:
  assumes "\<bar>x\<bar> < 2 ^ 53"
  shows "\<exists>k. real_of_int n = of_int k * ulp x"
proof -
  define j where "j = nat (52 - max (expo \<bar>x\<bar>) (- 1022))"
  have "max (expo \<bar>x\<bar>) (- 1022) - 52 = - int j"
    using expo_small [OF assms] by (simp add: j_def)
  then have u: "ulp x = 1 / 2 ^ j"
    by (simp add: ulp_def power_int_minus_divide)
  have "real_of_int n = of_int (n * 2 ^ j) * ulp x" unfolding u by simp
  then show ?thesis ..
qed

lemma round_le_int:
  assumes "x \<le> of_int n" "0 \<le> n" "n < 2 ^ 53"
  shows "rnd x \<le> of_int n"
proof (cases "x \<le> 0")
  case True
  then have "rnd x \<le> 0" using rnd_le [of x 0] by simp
  then show ?thesis using assms(2) by simp
next
  case False
  have "real_of_int n < 2 ^ 53" using assms(3) by (metis of_int_less_numeral_power_cancel_iff)
  then have "\<bar>x\<bar> < 2 ^ 53" using False assms(1) by simp
  from int_multiple_ulp [OF this, of n] obtain k where k: "real_of_int n = of_int k * ulp x" ..
  from rnd_le [of x k] assms(1) k show ?thesis by simp
qed

lemma round_ge_int:
  assumes "of_int n \<le> x" "0 \<le> n" "n < 2 ^ 53"
  shows "of_int n \<le> rnd x"
proof (cases "\<bar>x\<bar> < 2 ^ 53")
  case True
  from int_multiple_ulp [OF this, of n] obtain k where k: "real_of_int n = of_int k * ulp x" ..
  from rnd_ge [of k x] assms(1) k show ?thesis by simp
next
  case False
  have n: "real_of_int n < 2 ^ 53" using assms(3) by (metis of_int_less_numeral_power_cancel_iff)
  have x0: "0 \<le> x" using assms(1,2) by simp
  with False have big: "2 ^ 53 \<le> x" by simp
  then have pos: "0 < x" by (smt (verit) zero_less_power)
  note b = expo_bounds [OF pos]
  have e: "53 \<le> expo x"
  proof (rule ccontr)
    assume "\<not> 53 \<le> expo x"
    then have "(2::real) powi (expo x + 1) \<le> 2 powi 53" by (intro power_int_increasing) simp_all
    with b big show False by simp
  qed
  have ax: "\<bar>x\<bar> = x" using x0 by simp
  have u: "ulp x = 2 powi (expo x - 52)" using e by (simp add: ulp_def ax max_def)
  have "(2::real) powi expo x = 2 powi (52 + (expo x - 52))" by simp
  also have "\<dots> = 2 powi 52 * 2 powi (expo x - 52)" by (subst power_int_add) simp_all
  finally have p: "(2::real) powi expo x = of_int (2 ^ 52) * ulp x" unfolding u by simp
  have "2 powi expo x \<le> rnd x" using rnd_ge [of "2 ^ 52" x] b unfolding p by simp
  moreover have "(2::real) powi 53 \<le> 2 powi expo x" using e by (intro power_int_increasing) simp_all
  ultimately show ?thesis using n by simp
qed

lemma expo_double: "0 < x \<Longrightarrow> expo (x * 2) = expo x + 1"
proof -
  assume "0 < x"
  from expo_bounds [OF this] show ?thesis
    by (intro expo_unique) (simp_all add: power_int_add)
qed

lemma expo_half: "0 < x \<Longrightarrow> expo (x / 2) = expo x - 1"
proof -
  assume "0 < x"
  from expo_bounds [OF this] show ?thesis
    by (intro expo_unique) (simp_all add: power_int_add power_int_diff)
qed

lemma rnd_double:
  assumes "rnd v = v" "0 < v"
  shows "rnd (v * 2) = v * 2"
proof -
  from rnd_fixed [OF assms(1)] obtain k where k: "v = of_int k * ulp v" ..
  have a: "\<bar>v\<bar> = v" "\<bar>v * 2\<bar> = v * 2" using assms(2) by simp_all
  show ?thesis
  proof (cases "- 1022 \<le> expo v")
    case True
    have "expo v + 1 - 52 = (expo v - 52) + 1" by simp
    then have "ulp (v * 2) = 2 powi ((expo v - 52) + 1)"
      using True by (simp add: ulp_def a expo_double [OF assms(2)] max_def)
    also have "\<dots> = ulp v * 2"
      using True by (subst power_int_add) (simp_all add: ulp_def a max_def)
    finally have "v * 2 = of_int k * ulp (v * 2)" using k by simp
    then show ?thesis by (rule rnd_exact)
  next
    case False
    then have "ulp (v * 2) = ulp v"
      by (simp add: ulp_def a expo_double [OF assms(2)] max_def)
    then have "v * 2 = of_int (k * 2) * ulp (v * 2)" using k by simp
    then show ?thesis by (rule rnd_exact)
  qed
qed

lemma rnd_half:
  assumes "rnd v = v" "2 powi (- 1021) \<le> v"
  shows "rnd (v / 2) = v / 2"
proof -
  have "0 < (2::real) powi (- 1021)" by (rule zero_less_power_int) simp
  then have pos: "0 < v" using assms(2) by linarith
  from rnd_fixed [OF assms(1)] obtain k where k: "v = of_int k * ulp v" ..
  have a: "\<bar>v\<bar> = v" "\<bar>v / 2\<bar> = v / 2" using pos by simp_all
  note b = expo_bounds [OF pos]
  have e: "- 1021 \<le> expo v"
  proof (rule ccontr)
    assume "\<not> - 1021 \<le> expo v"
    then have "(2::real) powi (expo v + 1) \<le> 2 powi (- 1021)"
      by (intro power_int_increasing) simp_all
    with b assms(2) show False by linarith
  qed
  have m1: "max (expo v) (- 1022) = expo v" using e by simp
  have m2: "max (expo v - 1) (- 1022) = expo v - 1" using e by simp
  have "expo v - 52 = (expo v - 1 - 52) + 1" by simp
  then have "ulp v = 2 powi ((expo v - 1 - 52) + 1)" by (simp only: ulp_def a m1)
  also have "\<dots> = 2 powi (expo v - 1 - 52) * 2" by (subst power_int_add) simp_all
  also have "2 powi (expo v - 1 - 52) = ulp (v / 2)"
    by (simp only: ulp_def a expo_half [OF pos] m2)
  finally have h: "ulp (v / 2) = ulp v / 2" by simp
  have "v / 2 = of_int k * ulp v / 2" using k by simp
  then have "v / 2 = of_int k * ulp (v / 2)" unfolding h by simp
  then show ?thesis by (rule rnd_exact)
qed

lemma is_double_iff:
  "is_double x \<longleftrightarrow> rnd x = x \<and> - overflow_threshold < x \<and> x < overflow_threshold"
  by (auto simp: is_double_def round_binary64_def overflow_def)

lemma big_150: "150 < overflow_threshold"
  by (simp add: overflow_threshold_def)

lemma big_53: "2 ^ 53 < overflow_threshold"
  by (simp add: overflow_threshold_def)

lemma times_pos:
  assumes "0 < a" "0 < b"
  shows "times_number (Fin a) (Fin b) =
         (if overflow_threshold \<le> rnd (a * b) then PInf else Fin (rnd (a * b)))"
proof -
  have "0 \<le> rnd (a * b)" using assms by (intro rnd_nonneg) simp
  moreover have "0 < overflow_threshold" using big_150 by linarith
  ultimately show ?thesis by (simp add: round_binary64_def overflow_def)
qed

lemma prod_le:
  assumes "0 < a" "0 < b" "a * b \<le> of_int n" "0 \<le> n" "n < 2 ^ 53"
  shows "le_number (times_number (Fin a) (Fin b)) (Fin (of_int n))"
proof -
  have "real_of_int n < 2 ^ 53" using assms(5) by (metis of_int_less_numeral_power_cancel_iff)
  moreover have "rnd (a * b) \<le> of_int n" using assms(3-5) by (rule round_le_int)
  ultimately show ?thesis using big_53 by (simp add: times_pos [OF assms(1,2)] del: times_number.simps)
qed

lemma prod_ge:
  assumes "0 < a" "0 < b" "of_int n \<le> a * b" "0 \<le> n" "n < 2 ^ 53"
  shows "le_number (Fin (of_int n)) (times_number (Fin a) (Fin b))"
proof -
  have "of_int n \<le> rnd (a * b)" using assms(3-5) by (rule round_ge_int)
  then show ?thesis by (simp add: times_pos [OF assms(1,2)] del: times_number.simps)
qed

lemma prod_lt:
  assumes "0 < a" "0 < b" "less_number (times_number (Fin a) (Fin b)) (Fin (of_int n))"
    "0 \<le> n" "n < 2 ^ 53"
  shows "a * b < of_int n"
proof (rule ccontr)
  assume "\<not> a * b < of_int n"
  then have "of_int n \<le> a * b" by simp
  from prod_ge [OF assms(1,2) this assms(4,5)] assms(3) show False
    by (simp add: times_pos [OF assms(1,2)] del: times_number.simps split: if_splits)
qed

lemma prod_gt:
  assumes "0 < a" "0 < b" "less_number (Fin (of_int n)) (times_number (Fin a) (Fin b))"
    "0 \<le> n" "n < 2 ^ 53"
  shows "of_int n < a * b"
proof (rule ccontr)
  assume "\<not> of_int n < a * b"
  then have "a * b \<le> of_int n" by simp
  from prod_le [OF assms(1,2) this assms(4,5)] assms(3) show False
    by (simp add: times_pos [OF assms(1,2)] del: times_number.simps split: if_splits)
qed

lemma not_less_le:
  assumes "0 < a" "0 < b" "\<not> less_number (times_number (Fin a) (Fin b)) (Fin c)"
  shows "le_number (Fin c) (times_number (Fin a) (Fin b))"
  using assms(3) by (simp add: times_pos [OF assms(1,2)] del: times_number.simps split: if_splits)

lemma not_greater_le:
  assumes "0 < a" "0 < b" "\<not> less_number (Fin c) (times_number (Fin a) (Fin b))"
  shows "le_number (times_number (Fin a) (Fin b)) (Fin c)"
  using assms(3) by (simp add: times_pos [OF assms(1,2)] del: times_number.simps split: if_splits)

lemma times_two:
  assumes "is_double v" "0 < v" "v * 2 < overflow_threshold"
  shows "times_number (Fin v) (Fin 2) = Fin (v * 2)" and "is_double (v * 2)"
proof -
  have r: "rnd (v * 2) = v * 2" using assms(1,2) by (intro rnd_double) (simp_all add: is_double_iff)
  have "- overflow_threshold < v * 2" using assms(2) big_150 by linarith
  with r assms(3) show "is_double (v * 2)" by (simp add: is_double_iff)
  then show "times_number (Fin v) (Fin 2) = Fin (v * 2)" by (simp add: is_double_def)
qed

lemma half_exact:
  assumes "is_double v" "2 powi (- 1021) \<le> v"
  shows "half_number (Fin v) = Fin (v / 2)" and "is_double (v / 2)"
proof -
  have "0 < (2::real) powi (- 1021)" by (rule zero_less_power_int) simp
  then have pos: "0 < v" using assms(2) by linarith
  have r: "rnd (v / 2) = v / 2" using assms by (intro rnd_half) (simp_all add: is_double_iff)
  have "v / 2 < overflow_threshold" "- overflow_threshold < v / 2"
    using assms(1) pos by (simp_all add: is_double_iff)
  with r show "is_double (v / 2)" by (simp add: is_double_iff)
  then show "half_number (Fin v) = Fin (v / 2)" by (simp add: is_double_def)
qed

lemma double_fuel:
  "is_double v \<Longrightarrow> 0 < v \<Longrightarrow> 0 < s \<Longrightarrow> 30 < overflow_threshold * s \<Longrightarrow> v * s < 30 \<Longrightarrow>
   15 \<le> v * s * 2 ^ n \<Longrightarrow>
   \<exists>r. double_spacing (Fin v) (Fin s) = Some (Fin r) \<and> is_double r \<and>
       le_number (Fin 15) (times_number (Fin r) (Fin s)) \<and>
       le_number (times_number (Fin r) (Fin s)) (Fin 30)"
proof (induction n arbitrary: v)
  case 0
  have "le_number (Fin (of_int 15)) (times_number (Fin v) (Fin s))"
    using 0 by (intro prod_ge) simp_all
  then have ge: "le_number (Fin 15) (times_number (Fin v) (Fin s))" by simp
  have "le_number (times_number (Fin v) (Fin s)) (Fin (of_int 30))"
    using 0 by (intro prod_le) simp_all
  then have le: "le_number (times_number (Fin v) (Fin s)) (Fin 30)" by simp
  have "\<not> less_number (times_number (Fin v) (Fin s)) (Fin 15)"
    using ge by (simp add: times_pos [OF 0(2,3)] del: times_number.simps split: if_splits)
  then have "double_spacing (Fin v) (Fin s) = Some (Fin v)"
    by (subst double_spacing.simps) (simp only: if_False)
  with ge le 0(1) show ?case by blast
next
  case (Suc n)
  have "le_number (times_number (Fin v) (Fin s)) (Fin (of_int 30))"
    using Suc.prems by (intro prod_le) simp_all
  then have le: "le_number (times_number (Fin v) (Fin s)) (Fin 30)" by simp
  show ?case
  proof (cases "less_number (times_number (Fin v) (Fin s)) (Fin 15)")
    case False
    then have "double_spacing (Fin v) (Fin s) = Some (Fin v)"
      by (subst double_spacing.simps) (simp only: if_False)
    moreover have "le_number (Fin 15) (times_number (Fin v) (Fin s))"
      using Suc.prems(2,3) False by (rule not_less_le)
    ultimately show ?thesis using le Suc.prems(1) by blast
  next
    case True
    then have "less_number (times_number (Fin v) (Fin s)) (Fin (of_int 15))" by simp
    from prod_lt [OF Suc.prems(2,3) this] have lt: "v * s < 15" by simp
    have "v * 2 * s = 2 * (v * s)" by simp
    then have lt30: "v * 2 * s < 30" using lt by linarith
    then have "v * 2 * s < overflow_threshold * s" using Suc.prems(4) by linarith
    then have v2: "v * 2 < overflow_threshold" using Suc.prems(3) by simp
    note two = times_two [OF Suc.prems(1,2) v2]
    have step: "double_spacing (Fin v) (Fin s) = double_spacing (Fin (v * 2)) (Fin s)"
      by (subst double_spacing.simps) (simp only: True two(1) if_True)
    have "15 \<le> v * 2 * s * 2 ^ n" using Suc.prems(6) by (simp add: mult_ac)
    moreover have "0 < v * 2" using Suc.prems(2) by simp
    ultimately show ?thesis
      using Suc.IH [OF two(2) _ Suc.prems(3,4) lt30] step by simp
  qed
qed

lemma halve_fuel:
  "is_double v \<Longrightarrow> 0 < v \<Longrightarrow> 0 < s \<Longrightarrow> s < overflow_threshold \<Longrightarrow> 75 < v * s \<Longrightarrow>
   v * s \<le> 150 * 2 ^ n \<Longrightarrow>
   \<exists>r. halve_spacing (Fin v) (Fin s) = Some (Fin r) \<and> is_double r \<and>
       le_number (Fin 75) (times_number (Fin r) (Fin s)) \<and>
       le_number (times_number (Fin r) (Fin s)) (Fin 150)"
proof (induction n arbitrary: v)
  case 0
  have "le_number (Fin (of_int 75)) (times_number (Fin v) (Fin s))"
    using 0 by (intro prod_ge) simp_all
  then have ge: "le_number (Fin 75) (times_number (Fin v) (Fin s))" by simp
  have "le_number (times_number (Fin v) (Fin s)) (Fin (of_int 150))"
    using 0 by (intro prod_le) simp_all
  then have le: "le_number (times_number (Fin v) (Fin s)) (Fin 150)" by simp
  then have "\<not> less_number (Fin 150) (times_number (Fin v) (Fin s))"
    by (simp add: times_pos [OF 0(2,3)] del: times_number.simps split: if_splits)
  then have "halve_spacing (Fin v) (Fin s) = Some (Fin v)"
    by (subst halve_spacing.simps) (simp only: if_False)
  with ge le 0(1) show ?case by blast
next
  case (Suc n)
  have "le_number (Fin (of_int 75)) (times_number (Fin v) (Fin s))"
    using Suc.prems by (intro prod_ge) simp_all
  then have ge: "le_number (Fin 75) (times_number (Fin v) (Fin s))" by simp
  show ?case
  proof (cases "less_number (Fin 150) (times_number (Fin v) (Fin s))")
    case False
    then have "halve_spacing (Fin v) (Fin s) = Some (Fin v)"
      by (subst halve_spacing.simps) (simp only: if_False)
    moreover have "le_number (times_number (Fin v) (Fin s)) (Fin 150)"
      using Suc.prems(2,3) False by (rule not_greater_le)
    ultimately show ?thesis using ge Suc.prems(1) by blast
  next
    case True
    then have "less_number (Fin (of_int 150)) (times_number (Fin v) (Fin s))" by simp
    from prod_gt [OF Suc.prems(2,3) this] have gt: "150 < v * s" by simp
    have "v * s < v * overflow_threshold" using Suc.prems(2,4) by simp
    with gt have vt: "150 < v * overflow_threshold" by linarith
    have "(2::real) powi (- 1021) * overflow_threshold = 8"
      by (simp add: overflow_threshold_def)
    then have "2 powi (- 1021) * overflow_threshold < v * overflow_threshold"
      using vt by linarith
    then have "2 powi (- 1021) < v" using big_150 by (simp add: mult_less_cancel_right)
    then have small: "2 powi (- 1021) \<le> v" by simp
    note half = half_exact [OF Suc.prems(1) small]
    have step: "halve_spacing (Fin v) (Fin s) = halve_spacing (Fin (v / 2)) (Fin s)"
      by (subst halve_spacing.simps) (simp only: True half(1) if_True)
    have "75 < v / 2 * s" using gt by simp
    moreover have "v / 2 * s \<le> 150 * 2 ^ n" using Suc.prems(6) by simp
    moreover have "0 < v / 2" using Suc.prems(2) by simp
    ultimately show ?thesis
      using Suc.IH [OF half(2) _ Suc.prems(3,4)] step by simp
  qed
qed

lemma le_number_upper: "le_number x (Fin a) \<Longrightarrow> a \<le> b \<Longrightarrow> le_number x (Fin b)"
  by (cases x) simp_all

lemma le_number_lower: "le_number (Fin a) x \<Longrightarrow> b \<le> a \<Longrightarrow> le_number (Fin b) x"
  by (cases x) simp_all

lemma less_not_le: "less_number x (Fin c) \<Longrightarrow> \<not> le_number (Fin c) x"
  by (cases x) simp_all

lemma greater_not_le: "less_number (Fin c) x \<Longrightarrow> \<not> le_number x (Fin c)"
  by (cases x) simp_all

lemma double_terminates:
  assumes "is_double v" "0 < v" "0 < s" "30 < overflow_threshold * s"
    and "less_number (times_number (Fin v) (Fin s)) (Fin 15)"
  shows "\<exists>r. double_spacing (Fin v) (Fin s) = Some (Fin r) \<and> is_double r \<and>
             le_number (Fin 15) (times_number (Fin r) (Fin s)) \<and>
             le_number (times_number (Fin r) (Fin s)) (Fin 30)"
proof -
  have "less_number (times_number (Fin v) (Fin s)) (Fin (of_int 15))" using assms(5) by simp
  from prod_lt [OF assms(2,3) this] have lt: "v * s < 15" by simp
  have pos: "0 < v * s" using assms(2,3) by simp
  obtain n where "15 / (v * s) < 2 ^ n"
    using real_arch_pow [of 2 "15 / (v * s)"] by auto
  then have "15 < v * s * 2 ^ n" using pos by (simp add: divide_less_eq mult.commute)
  then have "15 \<le> v * s * 2 ^ n" by simp
  moreover have "v * s < 30" using lt by simp
  ultimately show ?thesis using assms(1-4) by (intro double_fuel)
qed

lemma halve_terminates:
  assumes "is_double v" "is_double s" "0 < v" "0 < s"
    and "less_number (Fin 150) (times_number (Fin v) (Fin s))"
  shows "\<exists>r. halve_spacing (Fin v) (Fin s) = Some (Fin r) \<and> is_double r \<and>
             le_number (Fin 75) (times_number (Fin r) (Fin s)) \<and>
             le_number (times_number (Fin r) (Fin s)) (Fin 150)"
proof -
  have "less_number (Fin (of_int 150)) (times_number (Fin v) (Fin s))" using assms(5) by simp
  from prod_gt [OF assms(3,4) this] have gt: "150 < v * s" by simp
  obtain n where "v * s / 150 < 2 ^ n"
    using real_arch_pow [of 2 "v * s / 150"] by auto
  then have "v * s \<le> 150 * 2 ^ n" by (simp add: divide_less_eq mult.commute)
  moreover have "75 < v * s" using gt by simp
  moreover have "s < overflow_threshold" using assms(2) by (simp add: is_double_iff)
  ultimately show ?thesis using assms(1,3,4) by (intro halve_fuel)
qed

lemma is_double_int:
  assumes "\<bar>real_of_int n\<bar> < 2 ^ 53"
  shows "is_double (of_int n)"
proof -
  from int_multiple_ulp [OF assms, of n] obtain k
    where "real_of_int n = of_int k * ulp (of_int n)" ..
  then have "rnd (of_int n) = of_int n" by (rule rnd_exact)
  moreover have "- overflow_threshold < real_of_int n" "real_of_int n < overflow_threshold"
    using assms big_53 by linarith+
  ultimately show ?thesis by (simp add: is_double_iff)
qed

lemma rnd_eval:
  assumes "2 powi k \<le> \<bar>x\<bar>" "\<bar>x\<bar> < 2 powi (k + 1)" "- 1022 \<le> k"
  shows "rnd x = of_int (rne (x / 2 powi (k - 52))) * 2 powi (k - 52)"
proof -
  have "expo \<bar>x\<bar> = k" using assms(1,2) by (rule expo_unique)
  then have "ulp x = 2 powi (k - 52)" using assms(3) by (simp add: ulp_def)
  then show ?thesis by (simp add: rnd_def)
qed

lemma is_double_pow2: "m \<le> 1023 \<Longrightarrow> is_double (2 ^ m)"
proof (induction m)
  case 0
  show ?case using is_double_int [of 1] by simp
next
  case (Suc m)
  have "(2::real) ^ Suc m \<le> 2 ^ 1023" using Suc.prems by (intro power_increasing) simp_all
  also have "\<dots> < (2::real) ^ 1024" by (intro power_strict_increasing) simp_all
  finally have "(2::real) ^ m * 2 < overflow_threshold" by (simp add: overflow_threshold_def)
  moreover have "is_double (2 ^ m)" using Suc by simp
  ultimately have "is_double (2 ^ m * 2)" by (intro times_two(2)) simp_all
  then show ?case by (simp add: mult.commute)
qed

lemma MIN_VALUE_pos: "0 < MIN_VALUE"
  by (simp add: MIN_VALUE_def)

lemma is_double_MIN_VALUE: "is_double MIN_VALUE"
proof -
  have m: "MIN_VALUE = 2 powi (- 1074)" by (simp add: MIN_VALUE_def power_int_minus_divide)
  have "(2::real) powi (- 1074) < 2 powi (- 1074 + 1)" by (intro power_int_strict_increasing) simp_all
  then have "expo (2 powi (- 1074)) = - 1074" by (intro expo_unique) simp_all
  then have "ulp (2 powi (- 1074)) = 2 powi (- 1074)" by (simp add: ulp_def)
  then have "2 powi (- 1074) = of_int 1 * ulp (2 powi (- 1074))" by simp
  then have "rnd (2 powi (- 1074)) = 2 powi (- 1074)" by (rule rnd_exact)
  moreover have "MIN_VALUE < 1" by (simp add: MIN_VALUE_def)
  ultimately show ?thesis using big_150 MIN_VALUE_pos unfolding m [symmetric]
    by (simp add: is_double_iff)
qed

lemma pow_small:
  assumes "m \<le> 1023"
  shows "less_number (times_number (Fin (2 ^ m)) (Fin MIN_VALUE)) (Fin 15)"
proof -
  have "(2::real) ^ m \<le> 2 ^ 1074" using assms by (intro power_increasing) simp_all
  then have "(2::real) ^ m * MIN_VALUE \<le> of_int 1" by (simp add: MIN_VALUE_def)
  then have "le_number (times_number (Fin (2 ^ m)) (Fin MIN_VALUE)) (Fin (of_int 1))"
    using MIN_VALUE_pos by (intro prod_le) simp_all
  then show ?thesis by (cases "times_number (Fin (2 ^ m)) (Fin MIN_VALUE)") simp_all
qed

lemma double_PInf: "double_spacing PInf (Fin MIN_VALUE) = Some PInf"
  using MIN_VALUE_pos by (subst double_spacing.simps) simp

lemma double_overflows:
  "j \<le> 1023 \<Longrightarrow> double_spacing (Fin (2 ^ (1023 - j))) (Fin MIN_VALUE) = Some PInf"
proof (induction j)
  case 0
  have "rnd (2 ^ 1023) = (2::real) ^ 1023"
    using is_double_pow2 [of 1023] by (simp add: is_double_iff)
  then have "rnd (2 ^ 1023 * 2) = (2::real) ^ 1023 * 2" by (rule rnd_double) simp
  moreover have "(2::real) ^ 1023 * 2 = overflow_threshold" by (simp add: overflow_threshold_def)
  ultimately have o: "times_number (Fin (2 ^ 1023)) (Fin 2) = PInf"
    by (simp add: round_binary64_def overflow_def)
  have "double_spacing (Fin (2 ^ 1023)) (Fin MIN_VALUE) = double_spacing PInf (Fin MIN_VALUE)"
    by (subst double_spacing.simps) (simp only: pow_small [of 1023] o if_True)
  then show ?case by (simp add: double_PInf)
next
  case (Suc j)
  let ?m = "1023 - Suc j"
  have m: "?m \<le> 1023" by simp
  have sm: "Suc ?m = 1023 - j" using Suc.prems by simp
  have eq: "(2::real) ^ ?m * 2 = 2 ^ (1023 - j)" using sm by (metis power_Suc2)
  have "(2::real) ^ (1023 - j) \<le> 2 ^ 1023" by (intro power_increasing) simp_all
  also have "\<dots> < (2::real) ^ 1024" by (intro power_strict_increasing) simp_all
  finally have "(2::real) ^ ?m * 2 < overflow_threshold"
    unfolding eq by (simp only: overflow_threshold_def)
  from times_two(1) [OF is_double_pow2 [OF m] _ this]
  have o: "times_number (Fin (2 ^ ?m)) (Fin 2) = Fin (2 ^ (1023 - j))" unfolding eq by simp
  have "double_spacing (Fin (2 ^ ?m)) (Fin MIN_VALUE)
          = double_spacing (Fin (2 ^ (1023 - j))) (Fin MIN_VALUE)"
    by (subst double_spacing.simps) (simp only: pow_small [OF m] o if_True)
  then show ?case using Suc by simp
qed

lemma is_double_scale_06: "is_double scale_06"
proof -
  have "rnd scale_06 = of_int (rne (scale_06 / 2 powi (- 1 - 52))) * 2 powi (- 1 - 52)"
    by (rule rnd_eval) (simp_all add: scale_06_def)
  also have "\<dots> = scale_06" by (simp add: scale_06_def rne_def)
  finally show ?thesis using big_150 by (simp add: is_double_iff) (simp add: scale_06_def)
qed

lemma times_25_scale_06: "times_number (Fin 25) (Fin scale_06) = Fin 15"
proof -
  have "rnd (25 * scale_06) = of_int (rne (25 * scale_06 / 2 powi (3 - 52))) * 2 powi (3 - 52)"
    by (rule rnd_eval) (simp_all add: scale_06_def)
  also have "\<dots> = 15" by (simp add: scale_06_def rne_def)
  finally show ?thesis using big_150 by (simp add: round_binary64_def overflow_def)
qed

lemma exact_product_below_15: "25 * scale_06 < 15"
  by (simp add: scale_06_def)

lemma is_double_scale_03: "is_double scale_03"
proof -
  have "rnd scale_03 = of_int (rne (scale_03 / 2 powi (- 2 - 52))) * 2 powi (- 2 - 52)"
    by (rule rnd_eval) (simp_all add: scale_03_def)
  also have "\<dots> = scale_03" by (simp add: scale_03_def rne_def)
  finally show ?thesis using big_150 by (simp add: is_double_iff) (simp add: scale_03_def)
qed

lemma times_25_scale_03: "times_number (Fin 25) (Fin scale_03) = Fin (15 / 2)"
proof -
  have "rnd (25 * scale_03) = of_int (rne (25 * scale_03 / 2 powi (2 - 52))) * 2 powi (2 - 52)"
    by (rule rnd_eval) (simp_all add: scale_03_def)
  also have "\<dots> = 15 / 2" by (simp add: scale_03_def rne_def)
  finally show ?thesis using big_150 by (simp add: round_binary64_def overflow_def)
qed

lemma times_50_scale_03: "times_number (Fin 50) (Fin scale_03) = Fin 15"
proof -
  have "rnd (50 * scale_03) = of_int (rne (50 * scale_03 / 2 powi (3 - 52))) * 2 powi (3 - 52)"
    by (rule rnd_eval) (simp_all add: scale_03_def)
  also have "\<dots> = 15" by (simp add: scale_03_def rne_def)
  finally show ?thesis using big_150 by (simp add: round_binary64_def overflow_def)
qed

lemma spacing_at_scale_03: "visual_grid_size (Fin 25) (Fin scale_03) = Some (Fin 50)"
proof -
  have "is_double 25" using is_double_int [of 25] by simp
  then have two: "times_number (Fin 25) (Fin 2) = Fin 50"
    using times_two(1) [of 25] big_150 by simp
  have "double_spacing (Fin 50) (Fin scale_03) = Some (Fin 50)"
    by (subst double_spacing.simps) (simp add: times_50_scale_03 del: times_number.simps)
  then have "double_spacing (Fin 25) (Fin scale_03) = Some (Fin 50)"
    by (subst double_spacing.simps) (simp add: times_25_scale_03 two del: times_number.simps)
  then show ?thesis
    by (simp add: visual_grid_size_def times_25_scale_03 del: times_number.simps)
qed

text \<open>
  C9, as stated, fails at the smallest positive number, \<open>scale = 2^-1074\<close>, with
  \<open>gridSize = 1\<close>: the doubling loop ends only when \<open>visualGridSize\<close> has overflowed to
  \<open>Infinity\<close>, and \<open>Infinity * scale\<close> is not at most \<open>150\<close>.
\<close>

theorem visual_grid_size_overflow:
  "is_double 1 \<and> is_double MIN_VALUE \<and> 0 < MIN_VALUE \<and>
   visual_grid_size (Fin 1) (Fin MIN_VALUE) = Some PInf \<and>
   times_number PInf (Fin MIN_VALUE) = PInf \<and>
   \<not> le_number (times_number PInf (Fin MIN_VALUE)) (Fin 150)"
proof -
  have c: "less_number (times_number (Fin 1) (Fin MIN_VALUE)) (Fin 15)"
    using pow_small [of 0] by simp
  have "visual_grid_size (Fin 1) (Fin MIN_VALUE) = double_spacing (Fin 1) (Fin MIN_VALUE)"
    unfolding visual_grid_size_def Let_def by (simp only: c if_True)
  also have "\<dots> = Some PInf" using double_overflows [of 1023] by simp
  finally have a: "visual_grid_size (Fin 1) (Fin MIN_VALUE) = Some PInf" .
  have b: "times_number PInf (Fin MIN_VALUE) = PInf" using MIN_VALUE_pos by simp
  have d: "is_double 1" using is_double_int [of 1] by simp
  show ?thesis using a b d is_double_MIN_VALUE MIN_VALUE_pos by simp
qed

text \<open>
  C9, amended.  For all binary64 numbers \<open>gridSize > 0\<close> and \<open>scale > 0\<close> with
  \<open>30 / scale < 2^1024\<close> (doubling cannot overflow), the spacing adjustment returns; the
  returned \<open>visualGridSize\<close> is finite, the product \<open>visualGridSize * scale\<close> as the worker
  computes it (rounded to binary64) lies in \<open>[15, 150]\<close>, and \<open>visualGridSize\<close> is
  \<open>gridSize\<close> itself whenever the computed \<open>gridSize * scale\<close> already lies in \<open>[15, 150]\<close>.
\<close>

theorem visual_grid_size_bounds:
  assumes "is_double gridSize" "is_double scale" "0 < gridSize" "0 < scale"
    and "30 < overflow_threshold * scale"
  shows "\<exists>v. visual_grid_size (Fin gridSize) (Fin scale) = Some (Fin v) \<and>
             le_number (Fin 15) (times_number (Fin v) (Fin scale)) \<and>
             le_number (times_number (Fin v) (Fin scale)) (Fin 150) \<and>
             (le_number (Fin 15) (times_number (Fin gridSize) (Fin scale)) \<and>
              le_number (times_number (Fin gridSize) (Fin scale)) (Fin 150) \<longrightarrow> v = gridSize)"
proof -
  let ?p = "times_number (Fin gridSize) (Fin scale)"
  consider (lo) "less_number ?p (Fin 15)"
    | (hi) "\<not> less_number ?p (Fin 15)" "less_number (Fin 150) ?p"
    | (mid) "\<not> less_number ?p (Fin 15)" "\<not> less_number (Fin 150) ?p" by blast
  then show ?thesis
  proof cases
    case lo
    then have "visual_grid_size (Fin gridSize) (Fin scale) = double_spacing (Fin gridSize) (Fin scale)"
      by (simp add: visual_grid_size_def del: times_number.simps)
    moreover from double_terminates [OF assms(1,3,4,5) lo] obtain r
      where "double_spacing (Fin gridSize) (Fin scale) = Some (Fin r)"
        and "le_number (Fin 15) (times_number (Fin r) (Fin scale))"
        and "le_number (times_number (Fin r) (Fin scale)) (Fin 30)" by blast
    moreover have "\<not> le_number (Fin 15) ?p" using lo by (rule less_not_le)
    ultimately show ?thesis using le_number_upper [of _ 30 150] by auto
  next
    case hi
    then have "visual_grid_size (Fin gridSize) (Fin scale) = halve_spacing (Fin gridSize) (Fin scale)"
      by (simp add: visual_grid_size_def del: times_number.simps)
    moreover from halve_terminates [OF assms(1-4) hi(2)] obtain r
      where "halve_spacing (Fin gridSize) (Fin scale) = Some (Fin r)"
        and "le_number (Fin 75) (times_number (Fin r) (Fin scale))"
        and "le_number (times_number (Fin r) (Fin scale)) (Fin 150)" by blast
    moreover have "\<not> le_number ?p (Fin 150)" using hi(2) by (rule greater_not_le)
    ultimately show ?thesis using le_number_lower [of 75 _ 15] by auto
  next
    case mid
    then have "visual_grid_size (Fin gridSize) (Fin scale) = Some (Fin gridSize)"
      by (simp add: visual_grid_size_def del: times_number.simps)
    moreover have "le_number (Fin 15) ?p" using assms(3,4) mid(1) by (rule not_less_le)
    moreover have "le_number ?p (Fin 150)" using assms(3,4) mid(2) by (rule not_greater_le)
    ultimately show ?thesis by simp
  qed
qed

theorem visual_grid_size_bounds_witness:
  "visual_grid_size (Fin 25) (Fin scale_06) = Some (Fin 25)"
proof -
  have a: "is_double 25" using is_double_int [of 25] by simp
  have "2 ^ 53 * scale_06 < overflow_threshold * scale_06"
    using big_53 by (simp add: scale_06_def)
  then have b: "30 < overflow_threshold * scale_06" by (simp add: scale_06_def)
  have c: "0 < scale_06" by (simp add: scale_06_def)
  from visual_grid_size_bounds [OF a is_double_scale_06 _ c b] times_25_scale_06
  show ?thesis by auto
qed


section \<open>Command history: what a recorded command says about the table\<close>

text \<open>
  A command is \<open>pending\<close> on a table that holds the prior values it recorded, and
  \<open>applied\<close> on a table that holds its new values; a batch is read entry by entry.
  \<open>history_ok\<close> says that the undo stack, read from the top, and the redo stack, read
  from the top, each describe the table step by step (with the entries of an open batch
  taken back first), and that no recorded id is one the engine has yet to assign.  A
  call sequence is \<open>disciplined\<close> when no call that records or replays history
  (add, move, resize, delete, undo, redo) is issued while a batch is open.
\<close>

definition pos_is :: "nat \<Rightarrow> position \<Rightarrow> table \<Rightarrow> bool" where
  "pos_is i p t = (case t i of None \<Rightarrow> False | Some ob \<Rightarrow> position_of ob = p)"

definition geom_is :: "nat \<Rightarrow> geometry \<Rightarrow> table \<Rightarrow> bool" where
  "geom_is i g t = (case t i of None \<Rightarrow> False | Some ob \<Rightarrow> geometry_of ob = g)"

fun stepwise :: "('a \<Rightarrow> table \<Rightarrow> bool) \<Rightarrow> ('a \<Rightarrow> table \<Rightarrow> table) \<Rightarrow> 'a list \<Rightarrow> table \<Rightarrow> bool" where
  "stepwise P f [] t = True"
| "stepwise P f (x # xs) t = (P x t \<and> stepwise P f xs (f x t))"

fun pending :: "Command \<Rightarrow> table \<Rightarrow> bool" where
  "pending (Create i ob) t = (t i = None)"
| "pending (Delete i ob) t = (t i = Some ob)"
| "pending (Move i p n) t = pos_is i p t"
| "pending (Resize i p n) t = geom_is i p t"
| "pending (BatchMove es) t =
     stepwise (\<lambda>(i, p, n). pos_is i p) (\<lambda>(i, p, n). set_position i n) es t"
| "pending (BatchResize es) t =
     stepwise (\<lambda>(i, p, n). geom_is i p) (\<lambda>(i, p, n). set_geometry i n) es t"

fun applied :: "Command \<Rightarrow> table \<Rightarrow> bool" where
  "applied (Create i ob) t = (t i = Some ob)"
| "applied (Delete i ob) t = (t i = None)"
| "applied (Move i p n) t = pos_is i n t"
| "applied (Resize i p n) t = geom_is i n t"
| "applied (BatchMove es) t =
     stepwise (\<lambda>(i, p, n). pos_is i n) (\<lambda>(i, p, n). set_position i p) (rev es) t"
| "applied (BatchResize es) t =
     stepwise (\<lambda>(i, p, n). geom_is i n) (\<lambda>(i, p, n). set_geometry i p) (rev es) t"

definition pending_command :: "engine \<Rightarrow> Command option" where
  "pending_command e =
     (case batch e of NoBatch \<Rightarrow> None | MoveBatch es \<Rightarrow> Some (BatchMove es)
      | ResizeBatch es \<Rightarrow> Some (BatchResize es))"

definition below :: "nat \<Rightarrow> Command \<Rightarrow> bool" where
  "below n c = (case c of Create i ob \<Rightarrow> i < n | Delete i ob \<Rightarrow> i < n | _ \<Rightarrow> True)"

definition dom_below :: "nat \<Rightarrow> table \<Rightarrow> bool" where
  "dom_below n t = (\<forall>i \<in> dom t. i < n)"

definition committed_table :: "engine \<Rightarrow> table" where
  "committed_table e =
     (case pending_command e of None \<Rightarrow> objects e | Some c \<Rightarrow> apply_inverse c (objects e))"

definition history_ok :: "engine \<Rightarrow> bool" where
  "history_ok e =
     ((case pending_command e of None \<Rightarrow> True | Some c \<Rightarrow> applied c (objects e)) \<and>
      stepwise applied apply_inverse (undoStack e) (committed_table e) \<and>
      stepwise pending apply_forward (redoStack e) (committed_table e) \<and>
      dom_below (nextObjectId e) (objects e) \<and>
      list_all (below (nextObjectId e)) (undoStack e @ redoStack e))"

fun history_call :: "engine_call \<Rightarrow> bool" where
  "history_call (AddObject x y w h aid ty) = True"
| "history_call (MoveObject i x y) = True"
| "history_call (ResizeObject i x y w h) = True"
| "history_call (DeleteObject i) = True"
| "history_call (DeleteObjects is) = True"
| "history_call Undo = True"
| "history_call Redo = True"
| "history_call c = False"

fun disciplined :: "engine_config \<Rightarrow> engine_call list \<Rightarrow> engine \<Rightarrow> bool" where
  "disciplined cfg [] e = True"
| "disciplined cfg (c # cs) e =
     ((batch e = NoBatch \<or> \<not> history_call c) \<and> disciplined cfg cs (eng_step cfg c e))"

definition open_batch_calls :: "engine_call list" where
  "open_batch_calls =
     [AddObject 0 0 100 100 1 1, MoveObject 1 50 50, BeginBatchMove, AddToBatchMove 1 70 70]"

definition open_batch_state :: engine where
  "open_batch_state =
     eng_run example_config open_batch_calls (eng_createCanvas example_config 800 600 25)"

definition closed_batch_state :: engine where
  "closed_batch_state =
     eng_run example_config (open_batch_calls @ [EndBatchMove])
       (eng_createCanvas example_config 800 600 25)"

definition interleaved_state :: engine where
  "interleaved_state =
     eng_run example_config
       [AddObject 0 0 100 100 1 1, BeginBatchMove, AddToBatchMove 1 70 70, MoveObject 1 5 5,
        EndBatchMove]
       (eng_createCanvas example_config 800 600 25)"


section \<open>Command history: undo followed by redo\<close>

lemma stepwise_append:
  "stepwise P f (xs @ ys) t = (stepwise P f xs t \<and> stepwise P f ys (fold f xs t))"
  by (induction xs arbitrary: t) auto

lemma stepwise_round_trip:
  assumes step: "\<And>x t. P x t \<Longrightarrow> Q x (f x t) \<and> g x (f x t) = t"
  shows "stepwise P f xs t \<Longrightarrow>
         stepwise Q g (rev xs) (fold f xs t) \<and> fold g (rev xs) (fold f xs t) = t"
proof (induction xs arbitrary: t)
  case Nil
  then show ?case by simp
next
  case (Cons x xs)
  from Cons.prems have px: "P x t" and rest: "stepwise P f xs (f x t)" by simp_all
  from Cons.IH [OF rest]
  have a: "stepwise Q g (rev xs) (fold f xs (f x t))"
    and b: "fold g (rev xs) (fold f xs (f x t)) = f x t" by simp_all
  from step [OF px] have c: "Q x (f x t)" and d: "g x (f x t) = t" by simp_all
  show ?case using a b c d by (simp add: stepwise_append)
qed

lemma set_position_round_trip:
  assumes "pos_is i p t"
  shows "pos_is i n (set_position i n t) \<and> set_position i p (set_position i n t) = t"
proof -
  from assms obtain ob where ob: "t i = Some ob" and p: "position_of ob = p"
    by (auto simp: pos_is_def split: option.splits)
  have "ob\<lparr>obj_x := fst p, obj_y := snd p\<rparr> = ob" using p by (auto simp: position_of_def)
  then have "t(i \<mapsto> ob\<lparr>obj_x := fst p, obj_y := snd p\<rparr>) = t" using ob by (simp add: fun_upd_idem)
  then show ?thesis using ob by (simp add: set_position_def pos_is_def position_of_def)
qed

lemma set_geometry_round_trip:
  assumes "geom_is i p t"
  shows "geom_is i n (set_geometry i n t) \<and> set_geometry i p (set_geometry i n t) = t"
proof -
  from assms obtain ob where ob: "t i = Some ob" and p: "geometry_of ob = p"
    by (auto simp: geom_is_def split: option.splits)
  obtain x y w h where pp: "p = (x, y, w, h)" by (cases p) auto
  obtain x' y' w' h' where nn: "n = (x', y', w', h')" by (cases n) auto
  have "ob\<lparr>obj_x := x, obj_y := y, obj_w := w, obj_h := h\<rparr> = ob"
    using p pp by (auto simp: geometry_of_def)
  then have "t(i \<mapsto> ob\<lparr>obj_x := x, obj_y := y, obj_w := w, obj_h := h\<rparr>) = t"
    using ob by (simp add: fun_upd_idem)
  then show ?thesis using ob pp nn by (simp add: set_geometry_def geom_is_def geometry_of_def)
qed

lemma forward_round_trip:
  "pending c t \<Longrightarrow> applied c (apply_forward c t) \<and> apply_inverse c (apply_forward c t) = t"
proof (cases c)
  case (Create i ob)
  assume "pending c t" with Create show ?thesis by auto
next
  case (Delete i ob)
  assume "pending c t" with Delete show ?thesis by auto
next
  case (Move i p n)
  assume "pending c t" with Move show ?thesis by (simp add: set_position_round_trip)
next
  case (Resize i p n)
  assume "pending c t" with Resize show ?thesis by (simp add: set_geometry_round_trip)
next
  case (BatchMove es)
  assume "pending c t"
  with BatchMove have "stepwise (\<lambda>(i, p, n). pos_is i p) (\<lambda>(i, p, n). set_position i n) es t" by simp
  from stepwise_round_trip [where Q = "\<lambda>(i, p, n). pos_is i n" and g = "\<lambda>(i, p, n). set_position i p", OF _ this]
  show ?thesis using BatchMove by (auto simp: set_position_round_trip)
next
  case (BatchResize es)
  assume "pending c t"
  with BatchResize have "stepwise (\<lambda>(i, p, n). geom_is i p) (\<lambda>(i, p, n). set_geometry i n) es t" by simp
  from stepwise_round_trip [where Q = "\<lambda>(i, p, n). geom_is i n" and g = "\<lambda>(i, p, n). set_geometry i p", OF _ this]
  show ?thesis using BatchResize by (auto simp: set_geometry_round_trip)
qed

lemma inverse_round_trip:
  "applied c t \<Longrightarrow> pending c (apply_inverse c t) \<and> apply_forward c (apply_inverse c t) = t"
proof (cases c)
  case (Create i ob)
  assume "applied c t" with Create show ?thesis by auto
next
  case (Delete i ob)
  assume "applied c t" with Delete show ?thesis by auto
next
  case (Move i p n)
  assume "applied c t" with Move show ?thesis by (simp add: set_position_round_trip)
next
  case (Resize i p n)
  assume "applied c t" with Resize show ?thesis by (simp add: set_geometry_round_trip)
next
  case (BatchMove es)
  assume "applied c t"
  with BatchMove have "stepwise (\<lambda>(i, p, n). pos_is i n) (\<lambda>(i, p, n). set_position i p) (rev es) t" by simp
  from stepwise_round_trip [where Q = "\<lambda>(i, p, n). pos_is i p" and g = "\<lambda>(i, p, n). set_position i n", OF _ this]
  show ?thesis using BatchMove by (auto simp: set_position_round_trip)
next
  case (BatchResize es)
  assume "applied c t"
  with BatchResize have "stepwise (\<lambda>(i, p, n). geom_is i n) (\<lambda>(i, p, n). set_geometry i p) (rev es) t" by simp
  from stepwise_round_trip [where Q = "\<lambda>(i, p, n). geom_is i p" and g = "\<lambda>(i, p, n). set_geometry i n", OF _ this]
  show ?thesis using BatchResize by (auto simp: set_geometry_round_trip)
qed


lemma dom_set_position: "dom (set_position i p t) = dom t"
  by (auto simp: set_position_def split: option.splits)

lemma dom_set_geometry: "dom (set_geometry i g t) = dom t"
  by (cases g) (auto simp: set_geometry_def split: option.splits)

lemma dom_fold_set_position:
  "dom (fold (\<lambda>(i, p, n). set_position i (sel p n)) es t) = dom t"
  by (induction es arbitrary: t) (simp_all add: dom_set_position split_def)

lemma dom_fold_set_geometry:
  "dom (fold (\<lambda>(i, p, n). set_geometry i (sel p n)) es t) = dom t"
  by (induction es arbitrary: t) (simp_all add: dom_set_geometry split_def)

lemma dom_below_forward:
  "below n c \<Longrightarrow> dom_below n t \<Longrightarrow> dom_below n (apply_forward c t)"
proof (cases c)
  case (BatchMove es)
  assume "dom_below n t"
  then show ?thesis using BatchMove
    by (simp add: dom_below_def dom_fold_set_position [where sel = "\<lambda>p n. n"])
next
  case (BatchResize es)
  assume "dom_below n t"
  then show ?thesis using BatchResize
    by (simp add: dom_below_def dom_fold_set_geometry [where sel = "\<lambda>p n. n"])
qed (auto simp: dom_below_def below_def dom_set_position dom_set_geometry)

lemma dom_below_inverse:
  "below n c \<Longrightarrow> dom_below n t \<Longrightarrow> dom_below n (apply_inverse c t)"
proof (cases c)
  case (BatchMove es)
  assume "dom_below n t"
  then show ?thesis using BatchMove
    by (simp add: dom_below_def dom_fold_set_position [where sel = "\<lambda>p n. p"])
next
  case (BatchResize es)
  assume "dom_below n t"
  then show ?thesis using BatchResize
    by (simp add: dom_below_def dom_fold_set_geometry [where sel = "\<lambda>p n. p"])
qed (auto simp: dom_below_def below_def dom_set_position dom_set_geometry)

lemma dom_below_mono: "dom_below n t \<Longrightarrow> n \<le> m \<Longrightarrow> dom_below m t"
  unfolding dom_below_def by (meson less_le_trans)

lemma below_mono: "below n c \<Longrightarrow> n \<le> m \<Longrightarrow> below m c"
  by (auto simp: below_def split: Command.splits)

lemma history_ok_push:
  assumes ok: "history_ok e" and nb: "batch e = NoBatch"
    and p: "pending c (objects e)" and b: "below (nextObjectId e') c"
    and n: "nextObjectId e \<le> nextObjectId e'"
    and o: "objects e' = apply_forward c (objects e)"
    and u: "undoStack e' = c # undoStack e" and r: "redoStack e' = []"
    and nb': "batch e' = NoBatch"
  shows "history_ok e'"
proof -
  from forward_round_trip [OF p]
  have a: "applied c (apply_forward c (objects e))"
    and i: "apply_inverse c (apply_forward c (objects e)) = objects e" by simp_all
  from ok nb have chain: "stepwise applied apply_inverse (undoStack e) (objects e)"
    and d: "dom_below (nextObjectId e) (objects e)"
    and bs: "list_all (below (nextObjectId e)) (undoStack e)"
    by (simp_all add: history_ok_def pending_command_def committed_table_def)
  have d': "dom_below (nextObjectId e') (objects e)"
    using d n by (rule dom_below_mono)
  have bs': "list_all (below (nextObjectId e')) (undoStack e)"
    using bs n by (auto simp: list_all_iff intro: below_mono)
  show ?thesis
    using a i chain b bs' dom_below_forward [OF b d'] o u r nb'
    by (simp add: history_ok_def pending_command_def committed_table_def)
qed


lemma history_ok_frame:
  assumes "objects e' = objects e" "undoStack e' = undoStack e" "redoStack e' = redoStack e"
    "batch e' = batch e" "nextObjectId e' = nextObjectId e"
  shows "history_ok e' = history_ok e"
  unfolding history_ok_def pending_command_def committed_table_def assms by (rule refl)

lemma ok_addObject:
  assumes ok: "history_ok e" and nb: "batch e = NoBatch"
  shows "history_ok (eng_step cfg (AddObject x y w h aid ty) e)"
proof (cases "w \<le> 0 \<or> h \<le> 0")
  case True
  then show ?thesis using ok by (simp add: eng_addObject_def)
next
  case False
  let ?ob = "\<lparr>obj_x = x, obj_y = y, obj_w = w, obj_h = h, obj_assetId = aid, obj_type = ty\<rparr>"
  let ?i = "nextObjectId e"
  let ?e' = "eng_step cfg (AddObject x y w h aid ty) e"
  from ok have "dom_below ?i (objects e)" by (simp add: history_ok_def)
  then have fresh: "objects e ?i = None" by (auto simp: dom_below_def)
  have "history_ok ?e'"
  proof (rule history_ok_push [OF ok nb, of "Create ?i ?ob"])
    show "pending (Create ?i ?ob) (objects e)" using fresh by simp
    show "below (nextObjectId ?e') (Create ?i ?ob)"
      using False by (simp add: eng_addObject_def Let_def commit_def below_def)
    show "nextObjectId e \<le> nextObjectId ?e'"
      using False by (simp add: eng_addObject_def Let_def commit_def)
    show "objects ?e' = apply_forward (Create ?i ?ob) (objects e)"
      using False by (simp add: eng_addObject_def Let_def commit_def)
    show "undoStack ?e' = Create ?i ?ob # undoStack e"
      using False by (simp add: eng_addObject_def Let_def commit_def)
    show "redoStack ?e' = []"
      using False by (simp add: eng_addObject_def Let_def commit_def)
    show "batch ?e' = NoBatch"
      using False nb by (simp add: eng_addObject_def Let_def commit_def)
  qed
  then show ?thesis .
qed

lemma ok_moveObject:
  assumes ok: "history_ok e" and nb: "batch e = NoBatch"
  shows "history_ok (or_unchanged e (eng_moveObject i x y e))"
proof (cases "objects e i")
  case None
  then show ?thesis using ok by (simp add: eng_moveObject_def or_unchanged_def)
next
  case (Some ob)
  let ?c = "Move i (position_of ob) (snap e (x, y))"
  let ?e' = "or_unchanged e (eng_moveObject i x y e)"
  show ?thesis
  proof (rule history_ok_push [OF ok nb, of ?c])
    show "pending ?c (objects e)" using Some by (simp add: pos_is_def)
    show "below (nextObjectId ?e') ?c" by (simp add: below_def)
    show "nextObjectId e \<le> nextObjectId ?e'"
      using Some by (simp add: eng_moveObject_def or_unchanged_def Let_def commit_def)
    show "objects ?e' = apply_forward ?c (objects e)"
      using Some by (simp add: eng_moveObject_def or_unchanged_def Let_def commit_def)
    show "undoStack ?e' = ?c # undoStack e"
      using Some by (simp add: eng_moveObject_def or_unchanged_def Let_def commit_def)
    show "redoStack ?e' = []"
      using Some by (simp add: eng_moveObject_def or_unchanged_def Let_def commit_def)
    show "batch ?e' = NoBatch"
      using Some nb by (simp add: eng_moveObject_def or_unchanged_def Let_def commit_def)
  qed
qed

lemma ok_resizeObject:
  assumes ok: "history_ok e" and nb: "batch e = NoBatch"
  shows "history_ok (or_unchanged e (eng_resizeObject i x y w h e))"
proof (cases "objects e i")
  case None
  then show ?thesis using ok by (simp add: eng_resizeObject_def or_unchanged_def)
next
  case (Some ob)
  show ?thesis
  proof (cases "w \<le> 0 \<or> h \<le> 0")
    case True
    then show ?thesis using ok Some by (simp add: eng_resizeObject_def or_unchanged_def)
  next
    case False
    let ?c = "Resize i (geometry_of ob) (fst (snap e (x, y)), snd (snap e (x, y)), w, h)"
    let ?e' = "or_unchanged e (eng_resizeObject i x y w h e)"
    show ?thesis
    proof (rule history_ok_push [OF ok nb, of ?c])
      show "pending ?c (objects e)" using Some by (simp add: geom_is_def)
      show "below (nextObjectId ?e') ?c" by (simp add: below_def)
      show "nextObjectId e \<le> nextObjectId ?e'"
        using Some False by (simp add: eng_resizeObject_def or_unchanged_def Let_def commit_def)
      show "objects ?e' = apply_forward ?c (objects e)"
        using Some False by (simp add: eng_resizeObject_def or_unchanged_def Let_def commit_def)
      show "undoStack ?e' = ?c # undoStack e"
        using Some False by (simp add: eng_resizeObject_def or_unchanged_def Let_def commit_def)
      show "redoStack ?e' = []"
        using Some False by (simp add: eng_resizeObject_def or_unchanged_def Let_def commit_def)
      show "batch ?e' = NoBatch"
        using Some False nb by (simp add: eng_resizeObject_def or_unchanged_def Let_def commit_def)
    qed
  qed
qed

lemma ok_deleteObject:
  assumes ok: "history_ok e" and nb: "batch e = NoBatch"
  shows "history_ok (or_unchanged e (eng_deleteObject i e)) \<and>
         batch (or_unchanged e (eng_deleteObject i e)) = NoBatch"
proof (cases "objects e i")
  case None
  then show ?thesis using ok nb by (simp add: eng_deleteObject_def or_unchanged_def)
next
  case (Some ob)
  let ?c = "Delete i ob"
  let ?e' = "or_unchanged e (eng_deleteObject i e)"
  from ok have "dom_below (nextObjectId e) (objects e)" by (simp add: history_ok_def)
  then have lt: "i < nextObjectId e" using Some by (auto simp: dom_below_def)
  have nb': "batch ?e' = NoBatch"
    using Some nb by (simp add: eng_deleteObject_def or_unchanged_def commit_def)
  have "history_ok ?e'"
  proof (rule history_ok_push [OF ok nb, of ?c])
    show "pending ?c (objects e)" using Some by simp
    show "below (nextObjectId ?e') ?c"
      using Some lt by (simp add: below_def eng_deleteObject_def or_unchanged_def commit_def)
    show "nextObjectId e \<le> nextObjectId ?e'"
      using Some by (simp add: eng_deleteObject_def or_unchanged_def commit_def)
    show "objects ?e' = apply_forward ?c (objects e)"
      using Some by (simp add: eng_deleteObject_def or_unchanged_def commit_def)
    show "undoStack ?e' = ?c # undoStack e"
      using Some by (simp add: eng_deleteObject_def or_unchanged_def commit_def)
    show "redoStack ?e' = []"
      using Some by (simp add: eng_deleteObject_def or_unchanged_def commit_def)
    show "batch ?e' = NoBatch" by (rule nb')
  qed
  with nb' show ?thesis by simp
qed

lemma ok_deleteObjects:
  "history_ok e \<Longrightarrow> batch e = NoBatch \<Longrightarrow>
   history_ok (eng_deleteObjects is e) \<and> batch (eng_deleteObjects is e) = NoBatch"
  unfolding eng_deleteObjects_def
  by (induction "is" arbitrary: e) (simp_all add: ok_deleteObject)

lemma ok_undo:
  assumes ok: "history_ok e" and nb: "batch e = NoBatch"
  shows "history_ok (snd (eng_undo e))"
proof (cases "undoStack e")
  case Nil
  then show ?thesis using ok by (simp add: eng_undo_def)
next
  case (Cons c cs)
  let ?t = "objects e"
  from ok nb Cons have a: "applied c ?t"
    and chain: "stepwise applied apply_inverse cs (apply_inverse c ?t)"
    and r: "stepwise pending apply_forward (redoStack e) ?t"
    and d: "dom_below (nextObjectId e) ?t"
    and b: "below (nextObjectId e) c"
    and bs: "list_all (below (nextObjectId e)) (cs @ redoStack e)"
    by (simp_all add: history_ok_def pending_command_def committed_table_def)
  from inverse_round_trip [OF a]
  have p: "pending c (apply_inverse c ?t)" and f: "apply_forward c (apply_inverse c ?t) = ?t"
    by simp_all
  show ?thesis
    using Cons nb chain r p f b bs dom_below_inverse [OF b d]
    by (simp add: eng_undo_def Let_def history_ok_def pending_command_def committed_table_def)
qed

lemma ok_redo:
  assumes ok: "history_ok e" and nb: "batch e = NoBatch"
  shows "history_ok (snd (eng_redo e))"
proof (cases "redoStack e")
  case Nil
  then show ?thesis using ok by (simp add: eng_redo_def)
next
  case (Cons c cs)
  let ?t = "objects e"
  from ok nb Cons have p: "pending c ?t"
    and chain: "stepwise pending apply_forward cs (apply_forward c ?t)"
    and u: "stepwise applied apply_inverse (undoStack e) ?t"
    and d: "dom_below (nextObjectId e) ?t"
    and b: "below (nextObjectId e) c"
    and bs: "list_all (below (nextObjectId e)) (undoStack e @ cs)"
    by (simp_all add: history_ok_def pending_command_def committed_table_def)
  from forward_round_trip [OF p]
  have a: "applied c (apply_forward c ?t)" and i: "apply_inverse c (apply_forward c ?t) = ?t"
    by simp_all
  show ?thesis
    using Cons nb chain u a i b bs dom_below_forward [OF b d]
    by (simp add: eng_redo_def Let_def history_ok_def pending_command_def committed_table_def)
qed


lemma ok_beginBatchMove:
  "history_ok e \<Longrightarrow> history_ok (or_unchanged e (eng_beginBatchMove e))"
  by (cases "batch e")
     (simp_all add: eng_beginBatchMove_def or_unchanged_def history_ok_def pending_command_def
        committed_table_def)

lemma ok_beginBatchResize:
  "history_ok e \<Longrightarrow> history_ok (or_unchanged e (eng_beginBatchResize e))"
  by (cases "batch e")
     (simp_all add: eng_beginBatchResize_def or_unchanged_def history_ok_def pending_command_def
        committed_table_def)

lemma ok_addToBatchMove:
  assumes ok: "history_ok e"
  shows "history_ok (or_unchanged e (eng_addToBatchMove i x y e))"
proof (cases "batch e")
  case (MoveBatch es)
  show ?thesis
  proof (cases "objects e i")
    case None
    then show ?thesis using ok MoveBatch by (simp add: eng_addToBatchMove_def or_unchanged_def)
  next
    case (Some ob)
    let ?t = "objects e"
    let ?t' = "set_position i (x, y) ?t"
    have "pos_is i (position_of ob) ?t" using Some by (simp add: pos_is_def)
    from set_position_round_trip [OF this, of "(x, y)"]
    have a: "pos_is i (x, y) ?t'" and b: "set_position i (position_of ob) ?t' = ?t" by simp_all
    from ok MoveBatch
    have ap: "applied (BatchMove es) ?t"
      and u: "stepwise applied apply_inverse (undoStack e) (apply_inverse (BatchMove es) ?t)"
      and r: "stepwise pending apply_forward (redoStack e) (apply_inverse (BatchMove es) ?t)"
      and d: "dom_below (nextObjectId e) ?t"
      and bs: "list_all (below (nextObjectId e)) (undoStack e @ redoStack e)"
      by (simp_all add: history_ok_def pending_command_def committed_table_def)
    have ap': "applied (BatchMove (es @ [(i, position_of ob, (x, y))])) ?t'"
      using ap a b by simp
    have inv': "apply_inverse (BatchMove (es @ [(i, position_of ob, (x, y))])) ?t'
                  = apply_inverse (BatchMove es) ?t"
      using b by simp
    have d': "dom_below (nextObjectId e) ?t'"
      using d by (simp add: dom_below_def dom_set_position)
    show ?thesis
      using MoveBatch Some ap' inv' u r d' bs
      by (simp add: eng_addToBatchMove_def or_unchanged_def history_ok_def pending_command_def
          committed_table_def del: applied.simps apply_inverse.simps)
  qed
qed (use ok in \<open>simp_all add: eng_addToBatchMove_def or_unchanged_def\<close>)

lemma ok_addToBatchResize:
  assumes ok: "history_ok e"
  shows "history_ok (or_unchanged e (eng_addToBatchResize i x y w h e))"
proof (cases "batch e")
  case (ResizeBatch es)
  show ?thesis
  proof (cases "objects e i")
    case None
    then show ?thesis using ok ResizeBatch by (simp add: eng_addToBatchResize_def or_unchanged_def)
  next
    case (Some ob)
    show ?thesis
    proof (cases "w \<le> 0 \<or> h \<le> 0")
      case True
      then show ?thesis
        using ok ResizeBatch Some by (simp add: eng_addToBatchResize_def or_unchanged_def)
    next
      case False
      let ?t = "objects e"
      let ?t' = "set_geometry i (x, y, w, h) ?t"
      have "geom_is i (geometry_of ob) ?t" using Some by (simp add: geom_is_def)
      from set_geometry_round_trip [OF this, of "(x, y, w, h)"]
      have a: "geom_is i (x, y, w, h) ?t'" and b: "set_geometry i (geometry_of ob) ?t' = ?t"
        by simp_all
      from ok ResizeBatch
      have ap: "applied (BatchResize es) ?t"
        and u: "stepwise applied apply_inverse (undoStack e) (apply_inverse (BatchResize es) ?t)"
        and r: "stepwise pending apply_forward (redoStack e) (apply_inverse (BatchResize es) ?t)"
        and d: "dom_below (nextObjectId e) ?t"
        and bs: "list_all (below (nextObjectId e)) (undoStack e @ redoStack e)"
        by (simp_all add: history_ok_def pending_command_def committed_table_def)
      have ap': "applied (BatchResize (es @ [(i, geometry_of ob, (x, y, w, h))])) ?t'"
        using ap a b by simp
      have inv': "apply_inverse (BatchResize (es @ [(i, geometry_of ob, (x, y, w, h))])) ?t'
                    = apply_inverse (BatchResize es) ?t"
        using b by simp
      have d': "dom_below (nextObjectId e) ?t'"
        using d by (simp add: dom_below_def dom_set_geometry)
      show ?thesis
        using ResizeBatch Some False ap' inv' u r d' bs
        by (simp add: eng_addToBatchResize_def or_unchanged_def history_ok_def pending_command_def
            committed_table_def del: applied.simps apply_inverse.simps)
    qed
  qed
qed (use ok in \<open>simp_all add: eng_addToBatchResize_def or_unchanged_def\<close>)

lemma ok_endBatchMove:
  assumes ok: "history_ok e"
  shows "history_ok (or_unchanged e (eng_endBatchMove e))"
proof (cases "batch e")
  case (MoveBatch es)
  from ok MoveBatch
  have ap: "applied (BatchMove es) (objects e)"
    and u: "stepwise applied apply_inverse (undoStack e) (apply_inverse (BatchMove es) (objects e))"
    and r: "stepwise pending apply_forward (redoStack e) (apply_inverse (BatchMove es) (objects e))"
    and d: "dom_below (nextObjectId e) (objects e)"
    and bs: "list_all (below (nextObjectId e)) (undoStack e @ redoStack e)"
    by (simp_all add: history_ok_def pending_command_def committed_table_def)
  show ?thesis
  proof (cases "es = []")
    case True
    then show ?thesis
      using MoveBatch u r d bs
      by (simp add: eng_endBatchMove_def or_unchanged_def history_ok_def pending_command_def
          committed_table_def)
  next
    case False
    then show ?thesis
      using MoveBatch ap u d bs
      by (simp add: eng_endBatchMove_def or_unchanged_def history_ok_def pending_command_def
          committed_table_def commit_def below_def del: applied.simps apply_inverse.simps)
  qed
qed (use ok in \<open>simp_all add: eng_endBatchMove_def or_unchanged_def\<close>)

lemma ok_endBatchResize:
  assumes ok: "history_ok e"
  shows "history_ok (or_unchanged e (eng_endBatchResize e))"
proof (cases "batch e")
  case (ResizeBatch es)
  from ok ResizeBatch
  have ap: "applied (BatchResize es) (objects e)"
    and u: "stepwise applied apply_inverse (undoStack e) (apply_inverse (BatchResize es) (objects e))"
    and r: "stepwise pending apply_forward (redoStack e) (apply_inverse (BatchResize es) (objects e))"
    and d: "dom_below (nextObjectId e) (objects e)"
    and bs: "list_all (below (nextObjectId e)) (undoStack e @ redoStack e)"
    by (simp_all add: history_ok_def pending_command_def committed_table_def)
  show ?thesis
  proof (cases "es = []")
    case True
    then show ?thesis
      using ResizeBatch u r d bs
      by (simp add: eng_endBatchResize_def or_unchanged_def history_ok_def pending_command_def
          committed_table_def)
  next
    case False
    then show ?thesis
      using ResizeBatch ap u d bs
      by (simp add: eng_endBatchResize_def or_unchanged_def history_ok_def pending_command_def
          committed_table_def commit_def below_def del: applied.simps apply_inverse.simps)
  qed
qed (use ok in \<open>simp_all add: eng_endBatchResize_def or_unchanged_def\<close>)

lemma ok_clearCanvas: "history_ok e \<Longrightarrow> history_ok (eng_clearCanvas e)"
  by (simp add: eng_clearCanvas_def history_ok_def pending_command_def committed_table_def
      dom_below_def)

lemma ok_createCanvas: "history_ok (eng_createCanvas cfg w h g)"
  by (simp add: eng_createCanvas_def history_ok_def pending_command_def committed_table_def
      dom_below_def)

lemma ok_step:
  assumes ok: "history_ok e" and dis: "batch e = NoBatch \<or> \<not> history_call c"
  shows "history_ok (eng_step cfg c e)"
proof (cases c)
  case ClearCanvas
  then show ?thesis using ok by (simp add: ok_clearCanvas)
next
  case (AddObject x y w h aid ty)
  then show ?thesis using ok dis ok_addObject by simp
next
  case (MoveObject i x y)
  then show ?thesis using ok dis by (simp add: ok_moveObject)
next
  case (ResizeObject i x y w h)
  then show ?thesis using ok dis by (simp add: ok_resizeObject)
next
  case (DeleteObject i)
  then show ?thesis using ok dis by (simp add: ok_deleteObject)
next
  case (DeleteObjects "is")
  then show ?thesis using ok dis by (simp add: ok_deleteObjects)
next
  case BeginBatchMove
  then show ?thesis using ok by (simp add: ok_beginBatchMove)
next
  case (AddToBatchMove i x y)
  then show ?thesis using ok by (simp add: ok_addToBatchMove)
next
  case EndBatchMove
  then show ?thesis using ok by (simp add: ok_endBatchMove)
next
  case BeginBatchResize
  then show ?thesis using ok by (simp add: ok_beginBatchResize)
next
  case (AddToBatchResize i x y w h)
  then show ?thesis using ok by (simp add: ok_addToBatchResize)
next
  case EndBatchResize
  then show ?thesis using ok by (simp add: ok_endBatchResize)
next
  case Undo
  then show ?thesis using ok dis by (simp add: ok_undo)
next
  case Redo
  then show ?thesis using ok dis by (simp add: ok_redo)
next
  case (SetGridSnap b)
  have "history_ok (eng_setGridSnap b e) = history_ok e"
    by (rule history_ok_frame) (simp_all add: eng_setGridSnap_def)
  then show ?thesis using ok SetGridSnap by simp
next
  case (SetGridSize n)
  have "history_ok (eng_setGridSize n e) = history_ok e"
    by (rule history_ok_frame) (simp_all add: eng_setGridSize_def)
  then show ?thesis using ok SetGridSize by simp
next
  case (Pan dx dy)
  have "history_ok (eng_pan dx dy e) = history_ok e"
    by (rule history_ok_frame) (simp_all add: eng_pan_def)
  then show ?thesis using ok Pan by simp
next
  case (Zoom cx cy d)
  have "history_ok (eng_zoom cfg cx cy d e) = history_ok e"
    by (rule history_ok_frame) (simp_all add: eng_zoom_def Let_def)
  then show ?thesis using ok Zoom by simp
next
  case (UpdateCanvasSize w h)
  have "history_ok (eng_updateCanvasSize w h e) = history_ok e"
    by (rule history_ok_frame) (simp_all add: eng_updateCanvasSize_def)
  then show ?thesis using ok UpdateCanvasSize by simp
qed

lemma ok_run:
  "history_ok e \<Longrightarrow> disciplined cfg cs e \<Longrightarrow> history_ok (eng_run cfg cs e)"
  unfolding eng_run_def
  by (induction cs arbitrary: e) (simp_all add: ok_step)

lemma undo_redo_objects:
  assumes ok: "history_ok e" and nb: "batch e = NoBatch" and ne: "undoStack e \<noteq> []"
  shows "objects (snd (eng_redo (snd (eng_undo e)))) = objects e"
proof -
  from ne obtain c cs where u: "undoStack e = c # cs" by (cases "undoStack e") auto
  from ok nb u have "applied c (objects e)"
    by (simp add: history_ok_def pending_command_def committed_table_def)
  from inverse_round_trip [OF this]
  have "apply_forward c (apply_inverse c (objects e)) = objects e" by simp
  then show ?thesis using u by (simp add: eng_undo_def eng_redo_def Let_def)
qed


lemmas engine_eval =
  open_batch_state_def closed_batch_state_def open_batch_calls_def eng_run_def
  eng_createCanvas_def example_config_def eng_addObject_def eng_moveObject_def
  eng_beginBatchMove_def eng_addToBatchMove_def eng_endBatchMove_def or_unchanged_def
  commit_def snap_def set_position_def position_of_def Let_def eng_undo_def eng_redo_def
  eng_canUndo_def eng_field_def sync_ids_def command_ids_def


text \<open>
  A single move issued inside an open batch is recorded before the batch is: once the
  batch has ended, the top of the undo stack is the batch, and undo followed by redo
  replays the batch over the later move.
\<close>

lemma undo_redo_interleaved_move:
  "batch interleaved_state = NoBatch \<and>
   eng_canUndo interleaved_state \<and>
   eng_field obj_x interleaved_state 1 = 5 \<and>
   eng_field obj_x (snd (eng_redo (snd (eng_undo interleaved_state)))) 1 = 70"
  by (simp add: interleaved_state_def engine_eval)

text \<open>
  C2, as stated, fails on a state the specification itself describes (section 5): a batch
  that was opened and filled but not ended.  After \<open>addObject\<close>, \<open>moveObject(1, 50, 50)\<close>,
  \<open>beginBatchMove\<close>, \<open>addToBatchMove(1, 70, 70)\<close> the object is at \<open>x = 70\<close> and the undo
  stack is not empty; \<open>undo\<close> then \<open>redo\<close> replays the recorded move and leaves it at
  \<open>x = 50\<close>.
\<close>

theorem undo_redo_open_batch:
  "eng_canUndo open_batch_state \<and>
   eng_field obj_x open_batch_state 1 = 70 \<and>
   eng_field obj_x (snd (eng_redo (snd (eng_undo open_batch_state)))) 1 = 50"
  by (simp add: engine_eval)


text \<open>
  C2, amended.  For every engine state reached from a fresh canvas by a disciplined call
  sequence, with no batch open and a non-empty undo stack, \<open>undo()\<close> and then \<open>redo()\<close>
  both succeed and restore the object table exactly: every object's \<open>x\<close>, \<open>y\<close>, \<open>w\<close>,
  \<open>h\<close> and existence, for every object id.
\<close>

theorem undo_redo_restores_geometry:
  assumes "disciplined cfg cs (eng_createCanvas cfg w h g)"
    and "e = eng_run cfg cs (eng_createCanvas cfg w h g)"
    and "batch e = NoBatch" and "undoStack e \<noteq> []"
  shows "fst (eng_undo e) \<and> fst (eng_redo (snd (eng_undo e))) \<and>
         objects (snd (eng_redo (snd (eng_undo e)))) = objects e \<and>
         (\<forall>i. eng_field obj_x (snd (eng_redo (snd (eng_undo e)))) i = eng_field obj_x e i \<and>
              eng_field obj_y (snd (eng_redo (snd (eng_undo e)))) i = eng_field obj_y e i \<and>
              eng_field obj_w (snd (eng_redo (snd (eng_undo e)))) i = eng_field obj_w e i \<and>
              eng_field obj_h (snd (eng_redo (snd (eng_undo e)))) i = eng_field obj_h e i \<and>
              eng_objectExists (snd (eng_redo (snd (eng_undo e)))) i = eng_objectExists e i)"
proof -
  have ok: "history_ok e"
    using assms(1,2) ok_run [OF ok_createCanvas] by simp
  have o: "objects (snd (eng_redo (snd (eng_undo e)))) = objects e"
    by (rule undo_redo_objects [OF ok assms(3,4)])
  from assms(4) obtain c cs' where u: "undoStack e = c # cs'" by (cases "undoStack e") auto
  have a: "fst (eng_undo e)" using u by (simp add: eng_undo_def Let_def)
  have b: "fst (eng_redo (snd (eng_undo e)))" using u by (simp add: eng_undo_def eng_redo_def Let_def)
  show ?thesis using a b o by (simp add: eng_field_def eng_objectExists_def)
qed

theorem undo_redo_restores_geometry_witness:
  "eng_field obj_x closed_batch_state 1 = 70 \<and>
   eng_field obj_x (snd (eng_redo (snd (eng_undo closed_batch_state)))) 1 = 70 \<and>
   eng_field obj_x (snd (eng_undo closed_batch_state)) 1 = 50"
proof -
  let ?cs = "open_batch_calls @ [EndBatchMove]"
  let ?e0 = "eng_createCanvas example_config 800 600 25"
  have d: "disciplined example_config ?cs ?e0" by (simp add: engine_eval)
  have e: "closed_batch_state = eng_run example_config ?cs ?e0" by (simp add: closed_batch_state_def)
  have nb: "batch closed_batch_state = NoBatch" by (simp add: engine_eval)
  have ne: "undoStack closed_batch_state \<noteq> []" by (simp add: engine_eval)
  from undo_redo_restores_geometry [OF d e nb ne]
  have "eng_field obj_x (snd (eng_redo (snd (eng_undo closed_batch_state)))) 1
          = eng_field obj_x closed_batch_state 1" by blast
  moreover have "eng_field obj_x closed_batch_state 1 = 70" by (simp add: engine_eval)
  moreover have "eng_field obj_x (snd (eng_undo closed_batch_state)) 1 = 50" by (simp add: engine_eval)
  ultimately show ?thesis by simp
qed


section \<open>Camera: zoom about a screen point\<close>

text \<open>
  C8.  For every configuration with \<open>0 < minZoom \<le> maxZoom\<close> and every camera with a
  positive zoom, after \<open>zoom(centerX, centerY, delta)\<close> the world point under the screen
  point \<open>(centerX, centerY)\<close> is the one that was under it before, and the new zoom lies
  in \<open>[minZoom, maxZoom]\<close>, however the delta combines with the old zoom.
\<close>

theorem zoom_keeps_point_under_cursor:
  assumes "0 < minZoom cfg" "minZoom cfg \<le> maxZoom cfg" "0 < cameraZoom e"
  shows "world_under (eng_zoom cfg centerX centerY delta e) (centerX, centerY)
           = world_under e (centerX, centerY) \<and>
         minZoom cfg \<le> cameraZoom (eng_zoom cfg centerX centerY delta e) \<and>
         cameraZoom (eng_zoom cfg centerX centerY delta e) \<le> maxZoom cfg"
  using assms by (auto simp: eng_zoom_def world_under_def clamp_zoom_def Let_def)

theorem zoom_keeps_point_under_cursor_witness:
  "world_under (eng_zoom example_config 400 300 2 (eng_createCanvas example_config 800 600 25))
     (400, 300) = (400, 300) \<and>
   cameraZoom (eng_zoom example_config 400 300 2 (eng_createCanvas example_config 800 600 25)) = 2 \<and>
   cameraX (eng_zoom example_config 400 300 2 (eng_createCanvas example_config 800 600 25)) = 200"
proof -
  let ?e = "eng_createCanvas example_config 800 600 25"
  have a: "0 < minZoom example_config" by (simp add: example_config_def)
  have b: "minZoom example_config \<le> maxZoom example_config" by (simp add: example_config_def)
  have c: "0 < cameraZoom ?e" by (simp add: example_config_def eng_createCanvas_def)
  from zoom_keeps_point_under_cursor [OF a b c, of 400 300 2]
  have "world_under (eng_zoom example_config 400 300 2 ?e) (400, 300) = world_under ?e (400, 300)"
    by blast
  moreover have "world_under ?e (400, 300) = (400, 300)"
    by (simp add: world_under_def example_config_def eng_createCanvas_def)
  moreover have "cameraZoom (eng_zoom example_config 400 300 2 ?e) = 2"
    by (simp add: eng_zoom_def world_under_def clamp_zoom_def Let_def example_config_def
        eng_createCanvas_def)
  moreover have "cameraX (eng_zoom example_config 400 300 2 ?e) = 200"
    by (simp add: eng_zoom_def world_under_def clamp_zoom_def Let_def example_config_def
        eng_createCanvas_def)
  ultimately show ?thesis by simp
qed


section \<open>The spatial index, modelled from the specification\<close>

text \<open>
  Modelled from the spec: the region quadtree of the engine (\<open>quadtree.ts\<close>) is not part
  of the sources at hand.  The definitions follow sections 3 and 4.2 of the
  specification.  A node owns its bounds and the ordered list of the objects it
  contains, each with its id and its bounding box, and has no children or four.
  Rectangles are closed: two rectangles intersect when they share a point.  The node
  capacity \<open>cap\<close> and the maximum depth \<open>maxd\<close> are the configured constants.  The
  specification gives the root no bounds: they are the bounds of the leaf the index
  starts from, a parameter of every statement below.
\<close>

record AABB =
  box_x :: real
  box_y :: real
  box_w :: real
  box_h :: real

definition intersects :: "AABB \<Rightarrow> AABB \<Rightarrow> bool" where
  "intersects a b =
     (box_x a \<le> box_x b + box_w b \<and> box_x b \<le> box_x a + box_w a \<and> box_y a \<le> box_y b + box_h b \<and> box_y b \<le> box_y a + box_h a)"

definition inside :: "AABB \<Rightarrow> AABB \<Rightarrow> bool" where
  "inside a b =
     (box_x b \<le> box_x a \<and> box_x a + box_w a \<le> box_x b + box_w b \<and> box_y b \<le> box_y a \<and> box_y a + box_h a \<le> box_y b + box_h b)"

datatype quadrant = NW | NE | SW | SE

definition quad :: "AABB \<Rightarrow> quadrant \<Rightarrow> AABB" where
  "quad b q =
     (case q of
        NW \<Rightarrow> \<lparr>box_x = box_x b, box_y = box_y b, box_w = box_w b / 2, box_h = box_h b / 2\<rparr>
      | NE \<Rightarrow> \<lparr>box_x = box_x b + box_w b / 2, box_y = box_y b, box_w = box_w b / 2, box_h = box_h b / 2\<rparr>
      | SW \<Rightarrow> \<lparr>box_x = box_x b, box_y = box_y b + box_h b / 2, box_w = box_w b / 2, box_h = box_h b / 2\<rparr>
      | SE \<Rightarrow> \<lparr>box_x = box_x b + box_w b / 2, box_y = box_y b + box_h b / 2, box_w = box_w b / 2, box_h = box_h b / 2\<rparr>)"

definition quadrant_of :: "AABB \<Rightarrow> AABB \<Rightarrow> quadrant option" where
  "quadrant_of b a =
     (if inside a (quad b NW) then Some NW
      else if inside a (quad b NE) then Some NE
      else if inside a (quad b SW) then Some SW
      else if inside a (quad b SE) then Some SE
      else None)"

type_synonym entry = "nat \<times> AABB"

datatype SpatialNode =
    Leaf AABB "entry list"
  | Split AABB "entry list" SpatialNode SpatialNode SpatialNode SpatialNode

fun node_bounds :: "SpatialNode \<Rightarrow> AABB" where
  "node_bounds (Leaf b os) = b"
| "node_bounds (Split b os nw ne sw se) = b"

definition redistribute :: "AABB \<Rightarrow> entry list \<Rightarrow> SpatialNode" where
  "redistribute b os =
     Split b (filter (\<lambda>ob. quadrant_of b (snd ob) = None) os)
       (Leaf (quad b NW) (filter (\<lambda>ob. quadrant_of b (snd ob) = Some NW) os))
       (Leaf (quad b NE) (filter (\<lambda>ob. quadrant_of b (snd ob) = Some NE) os))
       (Leaf (quad b SW) (filter (\<lambda>ob. quadrant_of b (snd ob) = Some SW) os))
       (Leaf (quad b SE) (filter (\<lambda>ob. quadrant_of b (snd ob) = Some SE) os))"

text \<open>
  Modelled from the spec (4.2, insert): descend from the root; a leaf under capacity or
  at maximum depth stores the object; any other leaf is split into its four quadrants,
  its objects are redistributed, and the insertion is retried.  An object that lies
  inside no single quadrant stays in the parent.  \<open>steps\<close> bounds the number of nodes
  an insertion can still visit.
\<close>

fun steps :: "nat \<Rightarrow> nat \<Rightarrow> SpatialNode \<Rightarrow> nat" where
  "steps maxd d (Leaf b os) = 2 * (maxd - d) + 1"
| "steps maxd d (Split b os nw ne sw se) =
     1 + max (max (steps maxd (d + 1) nw) (steps maxd (d + 1) ne))
             (max (steps maxd (d + 1) sw) (steps maxd (d + 1) se))"

function insert_node :: "nat \<Rightarrow> nat \<Rightarrow> nat \<Rightarrow> entry \<Rightarrow> SpatialNode \<Rightarrow> SpatialNode" where
  "insert_node cap maxd d ob (Leaf b os) =
     (if length os < cap \<or> maxd \<le> d then Leaf b (os @ [ob])
      else insert_node cap maxd d ob (redistribute b os))"
| "insert_node cap maxd d ob (Split b os nw ne sw se) =
     (case quadrant_of b (snd ob) of
        None \<Rightarrow> Split b (os @ [ob]) nw ne sw se
      | Some NW \<Rightarrow> Split b os (insert_node cap maxd (d + 1) ob nw) ne sw se
      | Some NE \<Rightarrow> Split b os nw (insert_node cap maxd (d + 1) ob ne) sw se
      | Some SW \<Rightarrow> Split b os nw ne (insert_node cap maxd (d + 1) ob sw) se
      | Some SE \<Rightarrow> Split b os nw ne sw (insert_node cap maxd (d + 1) ob se))"
  by pat_completeness auto
termination
  by (relation "measure (\<lambda>(cap, maxd, d, ob, t). steps maxd d t)")
     (auto simp: redistribute_def)

text \<open>
  Modelled from the spec (4.2, remove, update, queryViewport; 8): removal takes the id
  out of the node that holds it and merges nothing; the query visits only the nodes
  whose bounds intersect the rectangle and collects, from each visited node, the stored
  objects whose own bounds intersect the rectangle, in fixed quadrant order, then
  insertion order within a node.  The words of 4.2 (every object stored in an
  intersecting node) are read with section 8 (exactly the ids whose bounds intersect)
  and its example of the cluster and the distant object.
  \<open>brute_force\<close> is the linear scan over a list of objects.
\<close>

fun remove_node :: "nat \<Rightarrow> SpatialNode \<Rightarrow> SpatialNode" where
  "remove_node i (Leaf b os) = Leaf b (filter (\<lambda>ob. fst ob \<noteq> i) os)"
| "remove_node i (Split b os nw ne sw se) =
     Split b (filter (\<lambda>ob. fst ob \<noteq> i) os)
       (remove_node i nw) (remove_node i ne) (remove_node i sw) (remove_node i se)"

fun queryViewport :: "AABB \<Rightarrow> SpatialNode \<Rightarrow> nat list" where
  "queryViewport q (Leaf b os) =
     (if intersects b q then map fst (filter (\<lambda>ob. intersects (snd ob) q) os) else [])"
| "queryViewport q (Split b os nw ne sw se) =
     (if intersects b q
      then map fst (filter (\<lambda>ob. intersects (snd ob) q) os)
           @ queryViewport q nw @ queryViewport q ne
           @ queryViewport q sw @ queryViewport q se
      else [])"

fun entries :: "SpatialNode \<Rightarrow> entry list" where
  "entries (Leaf b os) = os"
| "entries (Split b os nw ne sw se) = os @ entries nw @ entries ne @ entries sw @ entries se"

definition brute_force :: "AABB \<Rightarrow> entry list \<Rightarrow> nat list" where
  "brute_force q objs = map fst (filter (\<lambda>ob. intersects (snd ob) q) objs)"

fun well_placed :: "SpatialNode \<Rightarrow> bool" where
  "well_placed (Leaf b os) = True"
| "well_placed (Split b os nw ne sw se) =
     (node_bounds nw = quad b NW \<and> node_bounds ne = quad b NE \<and>
      node_bounds sw = quad b SW \<and> node_bounds se = quad b SE \<and>
      (\<forall>ob \<in> set (entries nw). inside (snd ob) (quad b NW)) \<and>
      (\<forall>ob \<in> set (entries ne). inside (snd ob) (quad b NE)) \<and>
      (\<forall>ob \<in> set (entries sw). inside (snd ob) (quad b SW)) \<and>
      (\<forall>ob \<in> set (entries se). inside (snd ob) (quad b SE)) \<and>
      well_placed nw \<and> well_placed ne \<and> well_placed sw \<and> well_placed se)"

datatype index_op = Insert nat AABB | Remove nat | Update nat AABB

fun index_step :: "nat \<Rightarrow> nat \<Rightarrow> index_op \<Rightarrow> SpatialNode \<Rightarrow> SpatialNode" where
  "index_step cap maxd (Insert i a) t = insert_node cap maxd 0 (i, a) t"
| "index_step cap maxd (Remove i) t = remove_node i t"
| "index_step cap maxd (Update i a) t = insert_node cap maxd 0 (i, a) (remove_node i t)"

fun fresh_inserts :: "nat \<Rightarrow> nat \<Rightarrow> index_op list \<Rightarrow> SpatialNode \<Rightarrow> bool" where
  "fresh_inserts cap maxd [] t = True"
| "fresh_inserts cap maxd (op # ops) t =
     ((case op of Insert i a \<Rightarrow> i \<notin> fst ` set (entries t) | _ \<Rightarrow> True) \<and>
      fresh_inserts cap maxd ops (index_step cap maxd op t))"

definition index_run :: "nat \<Rightarrow> nat \<Rightarrow> index_op list \<Rightarrow> SpatialNode \<Rightarrow> SpatialNode" where
  "index_run cap maxd ops t = fold (index_step cap maxd) ops t"

text \<open>
  The objects the index has been given, kept in a plain list (the object table of
  section 4.1 restricted to id and bounds): the reference the query is compared with.
\<close>

fun table_step :: "index_op \<Rightarrow> entry list \<Rightarrow> entry list" where
  "table_step (Insert i a) objs = objs @ [(i, a)]"
| "table_step (Remove i) objs = filter (\<lambda>ob. fst ob \<noteq> i) objs"
| "table_step (Update i a) objs = filter (\<lambda>ob. fst ob \<noteq> i) objs @ [(i, a)]"

definition table_run :: "index_op list \<Rightarrow> entry list \<Rightarrow> entry list" where
  "table_run ops objs = fold table_step ops objs"

definition index_inv :: "AABB \<Rightarrow> SpatialNode \<Rightarrow> bool" where
  "index_inv rootBounds t = (well_placed t \<and> node_bounds t = rootBounds \<and> distinct (map fst (entries t)))"

definition example_root :: AABB where
  "example_root = \<lparr>box_x = 0, box_y = 0, box_w = 800, box_h = 600\<rparr>"



section \<open>The spatial index: what the viewport query returns\<close>

lemma inside_intersects: "inside a b \<Longrightarrow> intersects a q \<Longrightarrow> intersects b q"
  by (auto simp: inside_def intersects_def)

lemma quadrant_of_inside: "quadrant_of b a = Some k \<Longrightarrow> inside a (quad b k)"
  by (auto simp: quadrant_of_def split: if_splits)

lemma mset_redistribute: "mset (entries (redistribute b os)) = mset os"
proof (induction os)
  case Nil
  then show ?case by (simp add: redistribute_def)
next
  case (Cons ob os)
  then show ?case
    by (cases "quadrant_of b (snd ob)"; cases "the (quadrant_of b (snd ob))")
       (simp_all add: redistribute_def)
qed

lemma bounds_redistribute: "node_bounds (redistribute b os) = b"
  by (simp add: redistribute_def)

lemma well_placed_redistribute: "well_placed (redistribute b os)"
  by (auto simp: redistribute_def dest: quadrant_of_inside)

lemma mset_insert_node:
  "mset (entries (insert_node cap maxd d ob t)) = add_mset ob (mset (entries t))"
proof (induction cap maxd d ob t rule: insert_node.induct)
  case (1 cap maxd d ob b os)
  then show ?case by (simp add: mset_redistribute)
next
  case (2 cap maxd d ob b os nw ne sw se)
  then show ?case
    by (cases "quadrant_of b (snd ob)"; cases "the (quadrant_of b (snd ob))") simp_all
qed

lemma set_insert_node:
  "set (entries (insert_node cap maxd d ob t)) = insert ob (set (entries t))"
proof -
  have "set_mset (mset (entries (insert_node cap maxd d ob t))) = set_mset (add_mset ob (mset (entries t)))"
    by (simp only: mset_insert_node)
  then show ?thesis by simp
qed

lemma bounds_insert_node: "node_bounds (insert_node cap maxd d ob t) = node_bounds t"
proof (induction cap maxd d ob t rule: insert_node.induct)
  case (1 cap maxd d ob b os)
  then show ?case by (simp add: bounds_redistribute)
next
  case (2 cap maxd d ob b os nw ne sw se)
  then show ?case
    by (cases "quadrant_of b (snd ob)"; cases "the (quadrant_of b (snd ob))") simp_all
qed

lemma well_placed_insert_node:
  "well_placed t \<Longrightarrow> well_placed (insert_node cap maxd d ob t)"
proof (induction cap maxd d ob t rule: insert_node.induct)
  case (1 cap maxd d ob b os)
  then show ?case by (simp add: well_placed_redistribute)
next
  case (2 cap maxd d ob b os nw ne sw se)
  show ?case
  proof (cases "quadrant_of b (snd ob)")
    case None
    then show ?thesis using 2 by simp
  next
    case (Some k)
    from quadrant_of_inside [OF this] have "inside (snd ob) (quad b k)" .
    then show ?thesis using 2 Some
      by (cases k) (simp_all add: bounds_insert_node set_insert_node)
  qed
qed

lemma entries_remove_node: "entries (remove_node i t) = filter (\<lambda>ob. fst ob \<noteq> i) (entries t)"
  by (induction t) simp_all

lemma bounds_remove_node: "node_bounds (remove_node i t) = node_bounds t"
  by (cases t) simp_all

lemma well_placed_remove_node: "well_placed t \<Longrightarrow> well_placed (remove_node i t)"
  by (induction t) (simp_all add: bounds_remove_node entries_remove_node)





lemma none_intersects:
  assumes "\<forall>ob \<in> set os. inside (snd ob) b" "\<not> intersects b q"
  shows "filter (\<lambda>ob. intersects (snd ob) q) os = []"
  using assms inside_intersects [of _ b q] by (auto simp: filter_empty_conv)

lemma query_exact:
  "well_placed t \<Longrightarrow> \<forall>ob \<in> set (entries t). inside (snd ob) (node_bounds t) \<Longrightarrow>
   queryViewport q t = brute_force q (entries t)"
proof (induction t)
  case (Leaf b os)
  then show ?case by (simp add: brute_force_def none_intersects)
next
  case (Split b os nw ne sw se)
  show ?case
  proof (cases "intersects b q")
    case False
    have "filter (\<lambda>ob. intersects (snd ob) q) (entries (Split b os nw ne sw se)) = []"
      using Split.prems(2) False by (intro none_intersects [of _ b]) simp_all
    then show ?thesis using False by (simp add: brute_force_def)
  next
    case True
    have "queryViewport q nw = brute_force q (entries nw)" "queryViewport q ne = brute_force q (entries ne)"
      "queryViewport q sw = brute_force q (entries sw)" "queryViewport q se = brute_force q (entries se)"
      using Split.IH Split.prems(1) by simp_all
    then show ?thesis using True by (simp add: brute_force_def)
  qed
qed

lemma query_covers:
  assumes "well_placed t" "ob \<in> set (entries t)" "inside (snd ob) (node_bounds t)"
    "intersects (snd ob) q"
  shows "fst ob \<in> set (queryViewport q t)"
  using assms
proof (induction t)
  case (Leaf b os)
  then show ?case using inside_intersects [of "snd ob" b q] by auto
next
  case (Split b os nw ne sw se)
  have hit: "intersects b q"
    using Split.prems(3,4) inside_intersects [of "snd ob" b q] by simp
  from Split.prems(2) consider "ob \<in> set os" | "ob \<in> set (entries nw)" | "ob \<in> set (entries ne)"
    | "ob \<in> set (entries sw)" | "ob \<in> set (entries se)" by auto
  then show ?case
  proof cases
    case 1
    then show ?thesis using hit Split.prems(4) by auto
  next
    case 2
    with Split.prems(1) have "inside (snd ob) (node_bounds nw)" by simp
    with Split.IH(1) Split.prems(1,4) 2 have "fst ob \<in> set (queryViewport q nw)" by simp
    then show ?thesis using hit by simp
  next
    case 3
    with Split.prems(1) have "inside (snd ob) (node_bounds ne)" by simp
    with Split.IH(2) Split.prems(1,4) 3 have "fst ob \<in> set (queryViewport q ne)" by simp
    then show ?thesis using hit by simp
  next
    case 4
    with Split.prems(1) have "inside (snd ob) (node_bounds sw)" by simp
    with Split.IH(3) Split.prems(1,4) 4 have "fst ob \<in> set (queryViewport q sw)" by simp
    then show ?thesis using hit by simp
  next
    case 5
    with Split.prems(1) have "inside (snd ob) (node_bounds se)" by simp
    with Split.IH(4) Split.prems(1,4) 5 have "fst ob \<in> set (queryViewport q se)" by simp
    then show ?thesis using hit by simp
  qed
qed

lemma distinct_insert_node:
  assumes "distinct (map fst (entries t))" "fst ob \<notin> fst ` set (entries t)"
  shows "distinct (map fst (entries (insert_node cap maxd d ob t)))"
proof -
  have "mset (map fst (entries (insert_node cap maxd d ob t))) = mset (fst ob # map fst (entries t))"
    by (simp add: mset_insert_node)
  from mset_eq_imp_distinct_iff [OF this] assms show ?thesis by simp
qed

lemma index_inv_insert:
  "index_inv rootBounds t \<Longrightarrow> i \<notin> fst ` set (entries t) \<Longrightarrow>
   index_inv rootBounds (insert_node cap maxd d (i, a) t)"
  by (simp add: index_inv_def well_placed_insert_node bounds_insert_node distinct_insert_node)

lemma index_inv_remove: "index_inv rootBounds t \<Longrightarrow> index_inv rootBounds (remove_node i t)"
  by (simp add: index_inv_def well_placed_remove_node bounds_remove_node entries_remove_node
      distinct_map_filter)

lemma removed_fresh: "i \<notin> fst ` set (entries (remove_node i t))"
  by (auto simp: entries_remove_node)

lemma index_inv_step:
  assumes "index_inv rootBounds t"
    and "case op of Insert i a \<Rightarrow> i \<notin> fst ` set (entries t) | _ \<Rightarrow> True"
  shows "index_inv rootBounds (index_step cap maxd op t)"
proof (cases op)
  case (Insert i a)
  then show ?thesis using assms by (simp add: index_inv_insert)
next
  case (Remove i)
  then show ?thesis using assms by (simp add: index_inv_remove)
next
  case (Update i a)
  then show ?thesis
    using assms(1) by (simp add: index_inv_insert index_inv_remove removed_fresh)
qed

lemma index_inv_run:
  "index_inv rootBounds t \<Longrightarrow> fresh_inserts cap maxd ops t \<Longrightarrow> index_inv rootBounds (index_run cap maxd ops t)"
  unfolding index_run_def
  by (induction ops arbitrary: t) (simp_all add: index_inv_step)



lemma mset_index_step:
  "mset (entries t) = mset objs \<Longrightarrow>
   mset (entries (index_step cap maxd op t)) = mset (table_step op objs)"
  by (cases op) (simp_all add: mset_insert_node entries_remove_node)

lemma mset_index_run:
  "mset (entries t) = mset objs \<Longrightarrow>
   mset (entries (index_run cap maxd ops t)) = mset (table_run ops objs)"
  unfolding index_run_def table_run_def
proof (induction ops arbitrary: t objs)
  case Nil
  then show ?case by simp
next
  case (Cons op ops)
  from Cons.IH [OF mset_index_step [OF Cons.prems]] show ?case by simp
qed

lemma mset_brute_force:
  "mset xs = mset ys \<Longrightarrow> mset (brute_force q xs) = mset (brute_force q ys)"
proof -
  assume "mset xs = mset ys"
  then have "image_mset fst (filter_mset (\<lambda>ob. intersects (snd ob) q) (mset xs)) =
             image_mset fst (filter_mset (\<lambda>ob. intersects (snd ob) q) (mset ys))"
    by simp
  then show ?thesis unfolding brute_force_def by (simp only: mset_filter mset_map)
qed




section \<open>The examples of the specification, evaluated on the model\<close>

text \<open>
  The worked examples of section 8 of the specification hold of the modelled engine and
  index: the move that is undone and redone, the snapped move, the delete that is
  undone with the original id, and the cluster of four objects with one distant object
  (at every node capacity and maximum depth).
\<close>

lemmas example_eval =
  eng_run_def eng_createCanvas_def example_config_def eng_addObject_def eng_moveObject_def
  eng_deleteObject_def eng_setGridSnap_def eng_setGridSize_def
  or_unchanged_def commit_def snap_def snap_coord_def set_position_def position_of_def Let_def
  eng_undo_def eng_redo_def eng_canUndo_def eng_canRedo_def eng_field_def eng_objectExists_def
  sync_ids_def command_ids_def

lemma spec_example_move_undo_redo:
  "fst (projr (eng_addObject 0 0 100 100 1 1 (eng_createCanvas example_config 800 600 25))) = 1 \<and>
   eng_field obj_x (eng_run example_config [AddObject 0 0 100 100 1 1, MoveObject 1 50 50]
      (eng_createCanvas example_config 800 600 25)) 1 = 50 \<and>
   eng_field obj_x (eng_run example_config [AddObject 0 0 100 100 1 1, MoveObject 1 50 50, Undo]
      (eng_createCanvas example_config 800 600 25)) 1 = 0 \<and>
   eng_canRedo (eng_run example_config [AddObject 0 0 100 100 1 1, MoveObject 1 50 50, Undo]
      (eng_createCanvas example_config 800 600 25)) \<and>
   eng_field obj_x (eng_run example_config [AddObject 0 0 100 100 1 1, MoveObject 1 50 50, Undo, Redo]
      (eng_createCanvas example_config 800 600 25)) 1 = 50"
  by (simp add: example_eval)

lemma round_52_25: "round (52 / 25 :: real) = 2"
  by (simp add: round_def floor_eq_iff)

lemma spec_example_snap:
  "eng_field obj_x
     (eng_run example_config
        [AddObject 0 0 100 100 1 1, SetGridSnap True, SetGridSize 25, MoveObject 1 52 52]
        (eng_createCanvas example_config 800 600 25)) 1 = 50 \<and>
   eng_field obj_y
     (eng_run example_config
        [AddObject 0 0 100 100 1 1, SetGridSnap True, SetGridSize 25, MoveObject 1 52 52]
        (eng_createCanvas example_config 800 600 25)) 1 = 50"
  by (simp add: example_eval round_52_25)

lemma spec_example_delete_undo:
  "objects (eng_run example_config [AddObject 0 0 100 100 1 1, DeleteObject 1]
      (eng_createCanvas example_config 800 600 25)) 1 = None \<and>
   objects (eng_run example_config [AddObject 0 0 100 100 1 1, DeleteObject 1, Undo]
      (eng_createCanvas example_config 800 600 25)) 1
     = Some \<lparr>obj_x = 0, obj_y = 0, obj_w = 100, obj_h = 100, obj_assetId = 1, obj_type = 1\<rparr>"
  by (simp add: example_eval)

lemma spec_example_cluster:
  "queryViewport \<lparr>box_x = 690, box_y = 490, box_w = 30, box_h = 30\<rparr>
     (index_run cap maxd
        [Insert 1 \<lparr>box_x = 10, box_y = 10, box_w = 5, box_h = 5\<rparr>,
         Insert 2 \<lparr>box_x = 20, box_y = 10, box_w = 5, box_h = 5\<rparr>,
         Insert 3 \<lparr>box_x = 10, box_y = 20, box_w = 5, box_h = 5\<rparr>,
         Insert 4 \<lparr>box_x = 20, box_y = 20, box_w = 5, box_h = 5\<rparr>,
         Insert 5 \<lparr>box_x = 700, box_y = 500, box_w = 10, box_h = 10\<rparr>]
        (Leaf example_root [])) = [5]"
proof -
  let ?ops = "[Insert 1 \<lparr>box_x = 10, box_y = 10, box_w = 5, box_h = 5\<rparr>,
         Insert 2 \<lparr>box_x = 20, box_y = 10, box_w = 5, box_h = 5\<rparr>,
         Insert 3 \<lparr>box_x = 10, box_y = 20, box_w = 5, box_h = 5\<rparr>,
         Insert 4 \<lparr>box_x = 20, box_y = 20, box_w = 5, box_h = 5\<rparr>,
         Insert 5 \<lparr>box_x = 700, box_y = 500, box_w = 10, box_h = 10\<rparr>]"
  let ?q = "\<lparr>box_x = 690, box_y = 490, box_w = 30, box_h = 30\<rparr>"
  let ?t = "index_run cap maxd ?ops (Leaf example_root [])"
  have "fresh_inserts cap maxd ?ops (Leaf example_root [])"
    by (simp add: set_insert_node del: insert_node.simps)
  moreover have "index_inv example_root (Leaf example_root [])"
    by (simp add: index_inv_def)
  ultimately have inv: "index_inv example_root ?t" by (rule index_inv_run [rotated])
  have m: "mset (entries ?t) = mset (table_run ?ops [])"
    by (rule mset_index_run) simp
  have "\<forall>ob \<in> set (table_run ?ops []). inside (snd ob) example_root"
    by (simp add: table_run_def example_root_def inside_def)
  with mset_eq_setD [OF m] inv
  have "\<forall>ob \<in> set (entries ?t). inside (snd ob) (node_bounds ?t)"
    by (simp add: index_inv_def)
  with inv have "queryViewport ?q ?t = brute_force ?q (entries ?t)"
    by (intro query_exact) (simp_all add: index_inv_def)
  with mset_brute_force [OF m, of ?q]
  have "mset (queryViewport ?q ?t) = mset (brute_force ?q (table_run ?ops []))" by simp
  also have "brute_force ?q (table_run ?ops []) = [5]"
    by (simp add: table_run_def brute_force_def intersects_def)
  finally show ?thesis by simp
qed


end
